theory Spec2Isabelle
  imports Complex_Main
begin

section \<open>Conditional Distribution Similarity statistic (CDS.py)\<close>

text \<open>
  A shallow embedding of \<^verbatim>\<open>causality/pairwise_models/CDS.py\<close>.

  Numbers. A numpy float is modelled by \<open>fval\<close>: a finite value carried as an exact
  real, or one of the three non-finite values. Arithmetic on finite values is exact
  (rounding and overflow of the 64-bit format are not modelled); the non-finite cases
  follow IEEE 754 as numpy applies it: a division by zero gives an infinity or NaN and
  raises nothing, and every comparison with NaN is false. A property that holds of the
  program only while its sums and squares stay within the 64-bit range is stated for
  float-safe inputs (\<open>float_safe\<close> below), on which they do.

  Sequences. An input sequence is a list of \<open>elem\<close>: a number, or an object that
  cannot be hashed. Python raises \<^verbatim>\<open>TypeError\<close> when such an object is put in a set.
\<close>

subsection \<open>Float values\<close>

datatype fval = Fin real | PInf | MInf | NaN

fun fneg :: "fval \<Rightarrow> fval" where
  "fneg (Fin a) = Fin (- a)"
| "fneg PInf = MInf"
| "fneg MInf = PInf"
| "fneg NaN = NaN"

fun fadd :: "fval \<Rightarrow> fval \<Rightarrow> fval" where
  "fadd (Fin a) (Fin b) = Fin (a + b)"
| "fadd NaN _ = NaN"
| "fadd _ NaN = NaN"
| "fadd PInf MInf = NaN"
| "fadd MInf PInf = NaN"
| "fadd PInf _ = PInf"
| "fadd _ PInf = PInf"
| "fadd MInf _ = MInf"
| "fadd _ MInf = MInf"

definition fsub :: "fval \<Rightarrow> fval \<Rightarrow> fval" where
  "fsub a b = fadd a (fneg b)"

text \<open>The sign of a value: 1, -1, or 0 for zero and NaN.\<close>

fun fsign :: "fval \<Rightarrow> int" where
  "fsign (Fin a) = (if 0 < a then 1 else if a < 0 then - 1 else 0)"
| "fsign PInf = 1"
| "fsign MInf = - 1"
| "fsign NaN = 0"

definition signed_inf :: "int \<Rightarrow> fval" where
  "signed_inf s = (if 0 < s then PInf else if s < 0 then MInf else NaN)"

fun fmul :: "fval \<Rightarrow> fval \<Rightarrow> fval" where
  "fmul (Fin a) (Fin b) = Fin (a * b)"
| "fmul NaN _ = NaN"
| "fmul _ NaN = NaN"
| "fmul a b = signed_inf (fsign a * fsign b)"

text \<open>
  Division as numpy does it on floats. Every divisor in the program is a standard
  deviation or a sum of counts, so a zero divisor is the positive zero: a non-zero
  finite value over zero is the infinity of its sign, zero over zero is NaN.
\<close>

fun fdiv :: "fval \<Rightarrow> fval \<Rightarrow> fval" where
  "fdiv (Fin a) (Fin b) = (if b = 0 then signed_inf (fsign (Fin a)) else Fin (a / b))"
| "fdiv NaN _ = NaN"
| "fdiv _ NaN = NaN"
| "fdiv (Fin a) _ = Fin 0"
| "fdiv a (Fin b) = signed_inf (fsign a * (if b < 0 then - 1 else 1))"
| "fdiv _ _ = NaN"

fun fsqrt :: "fval \<Rightarrow> fval" where
  "fsqrt (Fin a) = (if a < 0 then NaN else Fin (sqrt a))"
| "fsqrt PInf = PInf"
| "fsqrt MInf = NaN"
| "fsqrt NaN = NaN"

fun fabs :: "fval \<Rightarrow> fval" where
  "fabs (Fin a) = Fin \<bar>a\<bar>"
| "fabs PInf = PInf"
| "fabs MInf = PInf"
| "fabs NaN = NaN"

fun flt :: "fval \<Rightarrow> fval \<Rightarrow> bool" where
  "flt (Fin a) (Fin b) = (a < b)"
| "flt NaN _ = False"
| "flt _ NaN = False"
| "flt MInf MInf = False"
| "flt MInf _ = True"
| "flt _ MInf = False"
| "flt PInf _ = False"
| "flt _ PInf = True"

definition fgt :: "fval \<Rightarrow> fval \<Rightarrow> bool" where
  "fgt a b = flt b a"

text \<open>Python's \<^verbatim>\<open>==\<close> on floats: NaN equals nothing, itself included.\<close>

definition feq :: "fval \<Rightarrow> fval \<Rightarrow> bool" where
  "feq a b = (a = b \<and> a \<noteq> NaN)"

text \<open>Python's \<^verbatim>\<open><=\<close> on floats.\<close>

definition fle :: "fval \<Rightarrow> fval \<Rightarrow> bool" where
  "fle a b = (flt a b \<or> feq a b)"

definition is_finite :: "fval \<Rightarrow> bool" where
  "is_finite v = (case v of Fin _ \<Rightarrow> True | _ \<Rightarrow> False)"

text \<open>\<^verbatim>\<open>np.round\<close>: to the nearest integer, a tie to the even one.\<close>

definition round_half_even :: "real \<Rightarrow> int" where
  "round_half_even r =
     (let f = \<lfloor>r\<rfloor>; d = r - of_int f
      in if d < 1 / 2 then f else if 1 / 2 < d then f + 1
         else if even f then f else f + 1)"

fun fround :: "fval \<Rightarrow> fval" where
  "fround (Fin a) = Fin (of_int (round_half_even a))"
| "fround v = v"

text \<open>
  \<^verbatim>\<open>astype(int)\<close>: truncation towards zero. numpy converts NaN and the infinities
  to the least 64-bit integer on the usual platforms.
\<close>

fun astype_int :: "fval \<Rightarrow> int" where
  "astype_int (Fin a) = (if 0 \<le> a then \<lfloor>a\<rfloor> else \<lceil>a\<rceil>)"
| "astype_int _ = - (2 ^ 63)"

subsection \<open>numpy reductions\<close>

text \<open>Python's builtin \<^verbatim>\<open>sum\<close>: a left fold from 0.\<close>

definition py_sum :: "fval list \<Rightarrow> fval" where
  "py_sum xs = foldl fadd (Fin 0) xs"

text \<open>
  \<^verbatim>\<open>ndarray.sum\<close>. numpy adds pairwise; with exact addition the order of the
  additions does not change the result.
\<close>

definition np_sum :: "fval list \<Rightarrow> fval" where
  "np_sum xs = foldr fadd xs (Fin 0)"

text \<open>\<^verbatim>\<open>np.mean\<close>: the sum over the count; of an empty array it is 0/0 = NaN.\<close>

definition np_mean :: "fval list \<Rightarrow> fval" where
  "np_mean xs = fdiv (np_sum xs) (Fin (real (length xs)))"

text \<open>\<^verbatim>\<open>np.std\<close>: the square root of the mean squared deviation from the mean.\<close>

definition np_std :: "fval list \<Rightarrow> fval" where
  "np_std xs =
     (let m = np_mean xs
      in fsqrt (np_mean (map (\<lambda>v. fmul (fabs (fsub v m)) (fabs (fsub v m))) xs)))"

subsection \<open>Sequences, sets and counters\<close>

datatype elem = Num fval | Unhashable

datatype error = TypeError | AssertionError | ValueError

text \<open>
  The numbers of a sequence, as numpy reads them in arithmetic. The program hashes
  every element of an input (\<open>count_unique\<close>) before it computes with it, so
  arithmetic is reached only when every element is a number.
\<close>

definition floats :: "elem list \<Rightarrow> fval list" where
  "floats x = concat (map (\<lambda>e. case e of Num v \<Rightarrow> [v] | Unhashable \<Rightarrow> []) x)"

text \<open>Equality of dictionary keys and of array elements: equality of numbers.\<close>

fun key_eq :: "elem \<Rightarrow> elem \<Rightarrow> bool" where
  "key_eq (Num a) (Num b) = feq a b"
| "key_eq _ _ = False"

fun elem_lt :: "elem \<Rightarrow> elem \<Rightarrow> bool" where
  "elem_lt (Num a) (Num b) = flt a b"
| "elem_lt _ _ = False"

text \<open>
  \<^verbatim>\<open>set(x)\<close>, as the list of its members in the order of first occurrence. Each NaN
  of an array is a member of its own, since it equals no other element.
\<close>

fun py_set :: "elem list \<Rightarrow> elem list" where
  "py_set [] = []"
| "py_set (e # es) = e # py_set (filter (\<lambda>k. \<not> key_eq e k) es)"

text \<open>
  \<^verbatim>\<open>Counter(x)\<close>, as the list of its (key, count) entries in the order of first
  occurrence. Python 2 iterates a dictionary in hash order; the program's result does
  not depend on that order when addition is exact.
\<close>

fun Counter :: "elem list \<Rightarrow> (elem \<times> nat) list" where
  "Counter [] = []"
| "Counter (e # es) =
     (e, Suc (length (filter (key_eq e) es))) # Counter (filter (\<lambda>k. \<not> key_eq e k) es)"

text \<open>\<^verbatim>\<open>c[k]\<close> on a Counter: the count of an equal key, 0 when there is none.\<close>

fun counter_get :: "(elem \<times> nat) list \<Rightarrow> elem \<Rightarrow> nat" where
  "counter_get [] k = 0"
| "counter_get ((k', c) # kcs) k = (if key_eq k' k then c else counter_get kcs k)"

text \<open>
  \<^verbatim>\<open>sorted\<close>, by insertion. On a list without NaN the result is the sorted list,
  whatever the algorithm. With NaN among the elements the comparisons are no order and
  the result of Python's own algorithm may differ; no property below depends on the
  order of such a list.
\<close>

fun insort_elem :: "elem \<Rightarrow> elem list \<Rightarrow> elem list" where
  "insort_elem e [] = [e]"
| "insort_elem e (k # ks) = (if elem_lt k e then k # insort_elem e ks else e # k # ks)"

definition py_sorted :: "elem list \<Rightarrow> elem list" where
  "py_sorted xs = foldr insort_elem xs []"

text \<open>\<^verbatim>\<open>max\<close> of a list: the first element, replaced by each later greater one.\<close>

fun py_max :: "fval list \<Rightarrow> error + fval" where
  "py_max [] = Inl ValueError"
| "py_max (x # xs) = Inr (foldl (\<lambda>best v. if fgt v best then v else best) x xs)"

text \<open>\<^verbatim>\<open>list.index\<close>: the position of the first equal element.\<close>

fun py_index :: "fval list \<Rightarrow> fval \<Rightarrow> error + nat" where
  "py_index [] v = Inl ValueError"
| "py_index (x # xs) v =
     (if feq x v then Inr 0
      else case py_index xs v of Inl e \<Rightarrow> Inl e | Inr i \<Rightarrow> Inr (Suc i))"

subsection \<open>Discretization\<close>

definition NUMERICAL :: string where
  "NUMERICAL = ''Numerical''"

definition count_unique :: "elem list \<Rightarrow> error + nat" where
  "count_unique x = (if Unhashable \<in> set x then Inl TypeError else Inr (length (py_set x)))"

definition numerical :: "string \<Rightarrow> bool" where
  "numerical tp = (tp = NUMERICAL)"

definition int_elem :: "int \<Rightarrow> elem" where
  "int_elem i = Num (Fin (of_int i))"

definition discretized_values :: "elem list \<Rightarrow> string \<Rightarrow> int \<Rightarrow> int \<Rightarrow> error + elem list" where
  "discretized_values x tx ffactor maxdev =
     (if numerical tx then
        (case count_unique x of
           Inl e \<Rightarrow> Inl e
         | Inr n \<Rightarrow>
             if int n > 2 * ffactor * maxdev + 1 then
               (let vmax = ffactor * maxdev; vmin = - ffactor * maxdev
                in Inr (map int_elem [vmin..vmax]))
             else Inr (py_sorted (py_set x)))
      else Inr (py_sorted (py_set x)))"

definition len_discretized_values :: "elem list \<Rightarrow> string \<Rightarrow> int \<Rightarrow> int \<Rightarrow> error + nat" where
  "len_discretized_values x tx ffactor maxdev =
     (case discretized_values x tx ffactor maxdev of
        Inl e \<Rightarrow> Inl e
      | Inr vs \<Rightarrow> Inr (length vs))"

text \<open>
  The test of \<open>discretized_sequence\<close>:
  \<^verbatim>\<open>not norm or (numerical(tx) and count_unique(x) > len_discretized_values(...))\<close>,
  with Python's short-circuit order (\<open>nrm\<close> is the source's parameter \<^verbatim>\<open>norm\<close>).
\<close>

definition must_discretize :: "elem list \<Rightarrow> string \<Rightarrow> int \<Rightarrow> int \<Rightarrow> bool \<Rightarrow> error + bool" where
  "must_discretize x tx ffactor maxdev nrm =
     (if \<not> nrm then Inr True
      else if numerical tx then
        (case count_unique x of
           Inl e \<Rightarrow> Inl e
         | Inr n \<Rightarrow>
             (case len_discretized_values x tx ffactor maxdev of
                Inl e \<Rightarrow> Inl e
              | Inr l \<Rightarrow> Inr (n > l)))
      else Inr False)"

text \<open>
  The two standardization passes:
  \<^verbatim>\<open>x = (x - np.mean(x)) / np.std(x); xf = x[abs(x) < maxdev];
  x = (x - np.mean(xf)) / np.std(xf)\<close>.
\<close>

definition first_pass :: "fval list \<Rightarrow> fval list" where
  "first_pass x = map (\<lambda>v. fdiv (fsub v (np_mean x)) (np_std x)) x"

definition within_maxdev :: "fval list \<Rightarrow> int \<Rightarrow> fval list" where
  "within_maxdev x1 maxdev = filter (\<lambda>v. flt (fabs v) (Fin (of_int maxdev))) x1"

definition standardize :: "fval list \<Rightarrow> int \<Rightarrow> fval list" where
  "standardize x maxdev =
     (let x1 = first_pass x;
          xf = within_maxdev x1 maxdev
      in map (\<lambda>v. fdiv (fsub v (np_mean xf)) (np_std xf)) x1)"

text \<open>
  \<^verbatim>\<open>x = np.round(x * ffactor); x[x > vmax] = vmax; x[x < vmin] = vmin\<close>.
\<close>

definition round_clip :: "fval list \<Rightarrow> int \<Rightarrow> int \<Rightarrow> fval list" where
  "round_clip x ffactor maxdev =
     (let x1 = map (\<lambda>v. fround (fmul v (Fin (of_int ffactor)))) x;
          vmax = Fin (of_int (ffactor * maxdev));
          vmin = Fin (of_int (- ffactor * maxdev));
          x2 = map (\<lambda>v. if fgt v vmax then vmax else v) x1
      in map (\<lambda>v. if flt v vmin then vmin else v) x2)"

definition discretized_sequence ::
    "elem list \<Rightarrow> string \<Rightarrow> int \<Rightarrow> int \<Rightarrow> bool \<Rightarrow> error + elem list" where
  "discretized_sequence x tx ffactor maxdev nrm =
     (case must_discretize x tx ffactor maxdev nrm of
        Inl e \<Rightarrow> Inl e
      | Inr True \<Rightarrow>
          (let x1 = (if nrm then standardize (floats x) maxdev else floats x)
           in Inr (map Num (round_clip x1 ffactor maxdev)))
      | Inr False \<Rightarrow> Inr x)"

definition discretized_sequences ::
    "elem list \<Rightarrow> elem list \<Rightarrow> int \<Rightarrow> int \<Rightarrow> error + (elem list \<times> elem list)" where
  "discretized_sequences x y ffactor maxdev =
     (case discretized_sequence x NUMERICAL ffactor maxdev True of
        Inl e \<Rightarrow> Inl e
      | Inr xd \<Rightarrow>
          (case discretized_sequence y NUMERICAL ffactor maxdev True of
             Inl e \<Rightarrow> Inl e
           | Inr yd \<Rightarrow> Inr (xd, yd)))"

subsection \<open>Arrays in a store\<close>

text \<open>
  numpy arrays are objects: two names can denote one array, and an assignment through an
  index writes into the array that every such name denotes. To follow this, a second
  model keeps the arrays in a store, a map from addresses to contents with a counter of
  the addresses in use. An arithmetic expression, a call of \<^verbatim>\<open>np.round\<close> and an
  indexing with a mask each build a new array; \<^verbatim>\<open>x[mask] = v\<close> writes in place.
\<close>

record store =
  arrays :: "nat \<Rightarrow> elem list"
  fresh :: nat

definition alloc :: "store \<Rightarrow> elem list \<Rightarrow> nat \<times> store" where
  "alloc s xs = (fresh s, s\<lparr>arrays := (arrays s)(fresh s := xs), fresh := Suc (fresh s)\<rparr>)"

text \<open>\<^verbatim>\<open>x[cond(x)] = v\<close>, in place, on the array at address \<open>p\<close>.\<close>

definition assign_where :: "store \<Rightarrow> nat \<Rightarrow> (fval \<Rightarrow> bool) \<Rightarrow> fval \<Rightarrow> store" where
  "assign_where s p cond v =
     s\<lparr>arrays := (arrays s)(p := map (\<lambda>e. case e of Num w \<Rightarrow> if cond w then Num v else Num w
                                                | Unhashable \<Rightarrow> Unhashable) (arrays s p))\<rparr>"

text \<open>
  \<open>discretized_sequence\<close> on the array at address \<open>p\<close>: each rebinding of
  \<^verbatim>\<open>x\<close> allocates, the two clipping assignments write into the array that
  \<^verbatim>\<open>x\<close> denotes at that point, and the address of the result is returned. When no
  discretization is needed the address returned is the argument's own.
\<close>

definition standardize_st :: "store \<Rightarrow> nat \<Rightarrow> int \<Rightarrow> nat \<times> store" where
  "standardize_st s p maxdev =
     (let (p1, s1) = alloc s (map Num (first_pass (floats (arrays s p))));
          (pf, s2) = alloc s1 (map Num (within_maxdev (floats (arrays s1 p1)) maxdev));
          xf = floats (arrays s2 pf)
      in alloc s2 (map Num (map (\<lambda>v. fdiv (fsub v (np_mean xf)) (np_std xf))
                                (floats (arrays s2 p1)))))"

definition discretized_sequence_st ::
    "store \<Rightarrow> nat \<Rightarrow> string \<Rightarrow> int \<Rightarrow> int \<Rightarrow> bool \<Rightarrow> (error + nat) \<times> store" where
  "discretized_sequence_st s p tx ffactor maxdev nrm =
     (case must_discretize (arrays s p) tx ffactor maxdev nrm of
        Inl e \<Rightarrow> (Inl e, s)
      | Inr False \<Rightarrow> (Inr p, s)
      | Inr True \<Rightarrow>
          (let (p1, s1) = (if nrm then standardize_st s p maxdev else (p, s));
               (p2, s2) = alloc s1 (map Num (map (\<lambda>v. fround (fmul v (Fin (of_int ffactor))))
                                               (floats (arrays s1 p1))));
               vmax = Fin (of_int (ffactor * maxdev));
               vmin = Fin (of_int (- ffactor * maxdev));
               s3 = assign_where s2 p2 (\<lambda>v. fgt v vmax) vmax;
               s4 = assign_where s3 p2 (\<lambda>v. flt v vmin) vmin
           in (Inr p2, s4)))"

definition discretized_sequences_st ::
    "store \<Rightarrow> nat \<Rightarrow> nat \<Rightarrow> int \<Rightarrow> int \<Rightarrow> (error + nat \<times> nat) \<times> store" where
  "discretized_sequences_st s px py ffactor maxdev =
     (case discretized_sequence_st s px NUMERICAL ffactor maxdev True of
        (Inl e, s1) \<Rightarrow> (Inl e, s1)
      | (Inr pxd, s1) \<Rightarrow>
          (case discretized_sequence_st s1 py NUMERICAL ffactor maxdev True of
             (Inl e, s2) \<Rightarrow> (Inl e, s2)
           | (Inr pyd, s2) \<Rightarrow> (Inr (pxd, pyd), s2)))"

text \<open>
  A later store preserves an earlier one when no address in use has changed its
  contents.
\<close>

definition preserved :: "store \<Rightarrow> store \<Rightarrow> bool" where
  "preserved s s' = (fresh s \<le> fresh s' \<and> (\<forall>q<fresh s. arrays s' q = arrays s q))"

text \<open>Membership of the closed bin range \<open>[-ffactor * maxdev, ffactor * maxdev]\<close>.\<close>

definition in_bin_range :: "int \<Rightarrow> int \<Rightarrow> fval \<Rightarrow> bool" where
  "in_bin_range ffactor maxdev v =
     (fle (Fin (of_int (- ffactor * maxdev))) v \<and> fle v (Fin (of_int (ffactor * maxdev))))"

subsection \<open>Inputs on which the 64-bit computation stays finite\<close>

text \<open>
  The model adds and multiplies finite values exactly; numpy rounds to 64-bit floats and
  overflows to an infinity. The two agree on which intermediate values are finite, zero
  or NaN as long as no sum or square overflows and no non-zero deviation is squared to
  zero. \<open>float_safe\<close> is a sufficient condition on an input sequence for that: at most
  \<open>2 ^ 52\<close> values, each finite and either zero or of a magnitude between
  \<open>1 / 2 ^ 400\<close> and \<open>2 ^ 400\<close>. Every count is then an exact float, every sum is below
  \<open>2 ^ 452\<close> and every squared deviation below \<open>2 ^ 802\<close>; two distinct floats of that
  range differ by at least \<open>1 / 2 ^ 452\<close>, so the standard deviation that numpy computes
  for a sequence that is not constant is a positive finite number.
\<close>

fun float_safe_value :: "elem \<Rightarrow> bool" where
  "float_safe_value (Num (Fin r)) = (r = 0 \<or> (1 / 2 ^ 400 \<le> \<bar>r\<bar> \<and> \<bar>r\<bar> \<le> 2 ^ 400))"
| "float_safe_value _ = False"

definition float_safe :: "elem list \<Rightarrow> bool" where
  "float_safe ys = (length ys \<le> 2 ^ 52 \<and> list_all float_safe_value ys)"

subsection \<open>The estimator\<close>

text \<open>The fields of a \<^verbatim>\<open>CDS\<close> instance; the constructor's defaults are 2, 3 and 12.\<close>

record cds =
  ffactor :: int
  maxdev :: int
  minc :: int

definition cds_default :: cds where
  "cds_default = \<lparr>ffactor = 2, maxdev = 3, minc = 12\<rparr>"

text \<open>
  \<^verbatim>\<open>y_te[xd == a]\<close>: the elements of \<open>y_te\<close> at the positions where \<open>xd\<close> equals
  \<open>a\<close>. numpy requires the two arrays to have the same length; the model is meant for
  sequences of equal length.
\<close>

definition select_rows :: "elem list \<Rightarrow> elem \<Rightarrow> elem list \<Rightarrow> elem list" where
  "select_rows xd a y_te = map snd (filter (\<lambda>p. key_eq (fst p) a) (zip xd y_te))"

text \<open>
  \<^verbatim>\<open>c[k]\<close> for a key \<open>k\<close> taken from the Counter's own keys: Python finds the very
  object, so a NaN key has its count, which is 1.
\<close>

definition own_count :: "(elem \<times> nat) list \<Rightarrow> elem \<Rightarrow> nat" where
  "own_count c k = (if key_eq k k then counter_get c k else 1)"

text \<open>A list of counts as \<^verbatim>\<open>np.array(..., dtype=float)\<close>.\<close>

definition float_counts :: "nat list \<Rightarrow> fval list" where
  "float_counts cs = map (\<lambda>c. Fin (real c)) cs"

text \<open>\<^verbatim>\<open>a / a.sum()\<close>.\<close>

definition normalize :: "fval list \<Rightarrow> fval list" where
  "normalize a = map (\<lambda>v. fdiv v (np_sum a)) a"

text \<open>
  The continuous path (lines 110 to 114): the subset is centred on its own mean, scaled
  by the standard deviation of the whole of \<open>y_te\<close>, discretized without a second
  normalization, and counted over the bin range.
\<close>

definition rescale :: "elem list \<Rightarrow> elem list \<Rightarrow> fval list" where
  "rescale y_te yx =
     map (\<lambda>v. fdiv (fsub v (np_mean (floats yx))) (np_std (floats y_te))) (floats yx)"

definition continuous_hist :: "cds \<Rightarrow> elem list \<Rightarrow> elem list \<Rightarrow> error + fval list" where
  "continuous_hist self y_te yx =
     (case discretized_sequence (map Num (rescale y_te yx)) NUMERICAL
             (ffactor self) (maxdev self) False of
        Inl e \<Rightarrow> Inl e
      | Inr yx2 \<Rightarrow>
          (let cyx = Counter (map (\<lambda>v. int_elem (astype_int v)) (floats yx2))
           in case discretized_values y_te NUMERICAL (ffactor self) (maxdev self) of
                Inl e \<Rightarrow> Inl e
              | Inr dv \<Rightarrow> Inr (float_counts (map (counter_get cyx) dv))))"

text \<open>
  The low-cardinality path (lines 118 to 123), statement by statement:
  \<open>pad_hist\<close> is \<^verbatim>\<open>pyxax\<close>, \<open>xcorr\<close> the list of correlation scores,
  \<open>first_max\<close> is \<^verbatim>\<open>xcorr.index(max(xcorr))\<close> and \<open>repad\<close> the final
  \<^verbatim>\<open>pyxa\<close>. Python's \<^verbatim>\<open>[0] * k\<close> is empty for \<open>k \<le> 0\<close>, as
  \<open>replicate\<close> over the truncated difference is.
\<close>

definition pad_hist :: "nat \<Rightarrow> fval list \<Rightarrow> fval list" where
  "pad_hist ny pyxa = replicate (ny - 1) (Fin 0) @ pyxa @ replicate (ny - 1) (Fin 0)"

definition xcorr :: "fval list \<Rightarrow> fval list \<Rightarrow> nat \<Rightarrow> fval list" where
  "xcorr py pyxax ny =
     map (\<lambda>i. py_sum (map (\<lambda>p. fmul (fst p) (snd p)) (zip py (take ny (drop i pyxax)))))
       [0..<2 * ny - 1]"

definition first_max :: "fval list \<Rightarrow> error + nat" where
  "first_max xs = (case py_max xs of Inl e \<Rightarrow> Inl e | Inr m \<Rightarrow> py_index xs m)"

definition repad :: "nat \<Rightarrow> nat \<Rightarrow> fval list \<Rightarrow> fval list" where
  "repad ny imax pyxa = replicate (2 * ny - 2 - imax) (Fin 0) @ pyxa @ replicate imax (Fin 0)"

definition aligned_hist :: "fval list \<Rightarrow> elem list \<Rightarrow> elem list \<Rightarrow> error + fval list" where
  "aligned_hist py yrange yx =
     (let ny = length yrange;
          cyx = Counter yx;
          pyxa = float_counts (map (counter_get cyx) yrange);
          pyxax = pad_hist ny pyxa
      in case first_max (xcorr py pyxax ny) of
           Inl e \<Rightarrow> Inl e
         | Inr imax \<Rightarrow> Inr (repad ny imax pyxa))"

text \<open>The histogram of one cause-bin: the test of line 108 chooses the path.\<close>

definition cond_hist ::
    "cds \<Rightarrow> elem list \<Rightarrow> fval list \<Rightarrow> elem list \<Rightarrow> elem list \<Rightarrow> error + fval list" where
  "cond_hist self y_te py yrange yx =
     (case count_unique y_te of
        Inl e \<Rightarrow> Inl e
      | Inr n \<Rightarrow>
          (case len_discretized_values y_te NUMERICAL (ffactor self) (maxdev self) of
             Inl e \<Rightarrow> Inl e
           | Inr l \<Rightarrow>
               if n > l then continuous_hist self y_te yx
               else aligned_hist py yrange yx))"

text \<open>
  The loop over the cause-bins (lines 101 to 127). A bin qualifies when its count is
  greater than \<open>minc\<close>; the assertion of line 124 raises at the first qualifying bin
  whose histogram does not add up to the bin's count.
\<close>

fun cond_dists ::
    "cds \<Rightarrow> elem list \<Rightarrow> elem list \<Rightarrow> fval list \<Rightarrow> elem list \<Rightarrow> (elem \<times> nat) list
       \<Rightarrow> error + fval list list" where
  "cond_dists self xd y_te py yrange [] = Inr []"
| "cond_dists self xd y_te py yrange ((a, c) # cx) =
     (if int c > minc self then
        (case cond_hist self y_te py yrange (select_rows xd a y_te) of
           Inl e \<Rightarrow> Inl e
         | Inr pyxa \<Rightarrow>
             if \<not> feq (np_sum pyxa) (Fin (real c)) then Inl AssertionError
             else (case cond_dists self xd y_te py yrange cx of
                     Inl e \<Rightarrow> Inl e
                   | Inr pyx \<Rightarrow> Inr (normalize pyxa # pyx)))
      else cond_dists self xd y_te py yrange cx)"

text \<open>\<^verbatim>\<open>pyx.mean(axis=0)\<close>: the mean of each column of the matrix of rows.\<close>

definition column_means :: "fval list list \<Rightarrow> fval list" where
  "column_means pyx =
     (case pyx of
        [] \<Rightarrow> []
      | row # _ \<Rightarrow> map (\<lambda>j. np_mean (map (\<lambda>r. r ! j) pyx)) [0..<length row])"

text \<open>\<^verbatim>\<open>pyx - pyx.mean(axis=0)\<close>.\<close>

definition centered :: "fval list list \<Rightarrow> fval list list" where
  "centered pyx = map (\<lambda>r. map (\<lambda>p. fsub (fst p) (snd p)) (zip r (column_means pyx))) pyx"

text \<open>
  \<^verbatim>\<open>py = np.array([cy[i] for i in yrange], dtype=float); py = py / py.sum()\<close>.
\<close>

definition marginal :: "(elem \<times> nat) list \<Rightarrow> elem list \<Rightarrow> fval list" where
  "marginal cy yrange = normalize (float_counts (map (own_count cy) yrange))"

definition cds_score :: "cds \<Rightarrow> elem list \<Rightarrow> elem list \<Rightarrow> error + fval" where
  "cds_score self x_te y_te =
     (case discretized_sequences x_te y_te (ffactor self) (maxdev self) of
        Inl e \<Rightarrow> Inl e
      | Inr (xd, yd) \<Rightarrow>
          (let cx = Counter xd;
               cy = Counter yd;
               yrange = py_sorted (map fst cy);
               py = marginal cy yrange
           in case cond_dists self xd y_te py yrange cx of
                Inl e \<Rightarrow> Inl e
              | Inr pyx \<Rightarrow>
                  if length pyx = 0 then Inr (Fin 0)
                  else Inr (np_std (concat (centered pyx)))))"

text \<open>
  \<^verbatim>\<open>return self.cds_score(b, a) - self.cds_score(a, b)\<close>: the left operand is
  evaluated first, and an exception of either call ends the computation.
\<close>

definition predict_proba :: "cds \<Rightarrow> elem list \<Rightarrow> elem list \<Rightarrow> error + fval" where
  "predict_proba self a b =
     (case cds_score self b a of
        Inl e \<Rightarrow> Inl e
      | Inr s1 \<Rightarrow>
          (case cds_score self a b of
             Inl e \<Rightarrow> Inl e
           | Inr s2 \<Rightarrow> Inr (fsub s1 s2)))"

text \<open>
  The histogram \<^verbatim>\<open>pyxa\<close> of the cause-bin \<open>a\<close> as the loop body computes it
  before the assertion, from the discretized sequences and the effect sequence.
\<close>

definition bin_hist :: "cds \<Rightarrow> elem list \<Rightarrow> elem list \<Rightarrow> elem list \<Rightarrow> elem \<Rightarrow> error + fval list" where
  "bin_hist self xd yd y_te a =
     (let cy = Counter yd;
          yrange = py_sorted (map fst cy)
      in cond_hist self y_te (marginal cy yrange) yrange (select_rows xd a y_te))"

text \<open>
  The estimator on the store: \<^verbatim>\<open>y_te[xd == a]\<close> and the rescaled subset are new
  arrays, and the latter is passed to \<open>discretized_sequence\<close>.
\<close>

definition cond_hist_st ::
    "cds \<Rightarrow> store \<Rightarrow> nat \<Rightarrow> fval list \<Rightarrow> elem list \<Rightarrow> nat \<Rightarrow> (error + fval list) \<times> store" where
  "cond_hist_st self s py_te py yrange pyx =
     (case count_unique (arrays s py_te) of
        Inl e \<Rightarrow> (Inl e, s)
      | Inr n \<Rightarrow>
          (case len_discretized_values (arrays s py_te) NUMERICAL (ffactor self) (maxdev self) of
             Inl e \<Rightarrow> (Inl e, s)
           | Inr l \<Rightarrow>
               if n > l then
                 (let (p1, s1) = alloc s (map Num (rescale (arrays s py_te) (arrays s pyx)))
                  in case discretized_sequence_st s1 p1 NUMERICAL
                            (ffactor self) (maxdev self) False of
                       (Inl e, s2) \<Rightarrow> (Inl e, s2)
                     | (Inr p2, s2) \<Rightarrow>
                         (let cyx = Counter (map (\<lambda>v. int_elem (astype_int v))
                                                 (floats (arrays s2 p2)))
                          in case discretized_values (arrays s2 py_te) NUMERICAL
                                    (ffactor self) (maxdev self) of
                               Inl e \<Rightarrow> (Inl e, s2)
                             | Inr dv \<Rightarrow> (Inr (float_counts (map (counter_get cyx) dv)), s2)))
               else (aligned_hist py yrange (arrays s pyx), s)))"

fun cond_dists_st ::
    "cds \<Rightarrow> store \<Rightarrow> nat \<Rightarrow> nat \<Rightarrow> fval list \<Rightarrow> elem list \<Rightarrow> (elem \<times> nat) list
       \<Rightarrow> (error + fval list list) \<times> store" where
  "cond_dists_st self s pxd py_te py yrange [] = (Inr [], s)"
| "cond_dists_st self s pxd py_te py yrange ((a, c) # cx) =
     (if int c > minc self then
        (let (pyx, s1) = alloc s (select_rows (arrays s pxd) a (arrays s py_te))
         in case cond_hist_st self s1 py_te py yrange pyx of
              (Inl e, s2) \<Rightarrow> (Inl e, s2)
            | (Inr pyxa, s2) \<Rightarrow>
                if \<not> feq (np_sum pyxa) (Fin (real c)) then (Inl AssertionError, s2)
                else (case cond_dists_st self s2 pxd py_te py yrange cx of
                        (Inl e, s3) \<Rightarrow> (Inl e, s3)
                      | (Inr rows, s3) \<Rightarrow> (Inr (normalize pyxa # rows), s3)))
      else cond_dists_st self s pxd py_te py yrange cx)"

definition cds_score_st :: "cds \<Rightarrow> store \<Rightarrow> nat \<Rightarrow> nat \<Rightarrow> (error + fval) \<times> store" where
  "cds_score_st self s px_te py_te =
     (case discretized_sequences_st s px_te py_te (ffactor self) (maxdev self) of
        (Inl e, s1) \<Rightarrow> (Inl e, s1)
      | (Inr (pxd, pyd), s1) \<Rightarrow>
          (let cx = Counter (arrays s1 pxd);
               cy = Counter (arrays s1 pyd);
               yrange = py_sorted (map fst cy);
               py = marginal cy yrange
           in case cond_dists_st self s1 pxd py_te py yrange cx of
                (Inl e, s2) \<Rightarrow> (Inl e, s2)
              | (Inr pyx, s2) \<Rightarrow>
                  (if length pyx = 0 then Inr (Fin 0)
                   else Inr (np_std (concat (centered pyx))), s2)))"

definition predict_proba_st :: "cds \<Rightarrow> store \<Rightarrow> nat \<Rightarrow> nat \<Rightarrow> (error + fval) \<times> store" where
  "predict_proba_st self s pa pb =
     (case cds_score_st self s pb pa of
        (Inl e, s1) \<Rightarrow> (Inl e, s1)
      | (Inr v1, s1) \<Rightarrow>
          (case cds_score_st self s1 pa pb of
             (Inl e, s2) \<Rightarrow> (Inl e, s2)
           | (Inr v2, s2) \<Rightarrow> (Inr (fsub v1 v2), s2)))"

subsection \<open>Example inputs\<close>

text \<open>A small configuration and two sequences of four samples, used to run the model.\<close>

definition ex_cfg :: cds where
  "ex_cfg = \<lparr>ffactor = 1, maxdev = 1, minc = 1\<rparr>"

text \<open>The same configuration with the threshold \<open>minc = 0\<close>.\<close>

definition ex_cfg0 :: cds where
  "ex_cfg0 = \<lparr>ffactor = 1, maxdev = 1, minc = 0\<rparr>"

definition ex_x :: "elem list" where
  "ex_x = [Num (Fin 0), Num (Fin 0), Num (Fin 1), Num (Fin 1)]"

definition ex_y :: "elem list" where
  "ex_y = [Num (Fin 0), Num (Fin 1), Num (Fin 0), Num (Fin 0)]"

text \<open>
  A sequence with heavy tails: after the first standardization only the four zeros lie
  within one standard deviation, so the second pass divides by a zero deviation.
\<close>

definition ex_tails :: "elem list" where
  "ex_tails = map (\<lambda>r. Num (Fin r)) [- 8, - 6, 0, 0, 0, 0, 6, 8]"

text \<open>A sequence with four unique values whose two passes have non-zero deviations.\<close>

definition ex_w :: "elem list" where
  "ex_w = map (\<lambda>r. Num (Fin r)) [- 6, - 6, - 2, 0, 2]"

text \<open>A cause sequence with two bins, for the effect sequence \<open>ex_w\<close>.\<close>

definition ex_v :: "elem list" where
  "ex_v = map (\<lambda>r. Num (Fin r)) [0, 0, 0, 1, 1]"

text \<open>A constant cause sequence, and an effect sequence of two NaN.\<close>

definition ex_c :: "elem list" where
  "ex_c = [Num (Fin 5), Num (Fin 5)]"

definition ex_nan :: "elem list" where
  "ex_nan = [Num NaN, Num NaN]"

text \<open>A store holding \<open>ex_v\<close> and \<open>ex_w\<close>.\<close>

definition ex_store :: store where
  "ex_store = \<lparr>arrays = (\<lambda>p. [])(0 := ex_v, 1 := ex_w), fresh = 2\<rparr>"

section \<open>Properties of the model\<close>

subsection \<open>Keys and counters\<close>

lemma key_eq_sym: "key_eq a b = key_eq b a"
  by (cases a; cases b) (auto simp: feq_def)

lemma key_eq_trans: "key_eq a b \<Longrightarrow> key_eq b c \<Longrightarrow> key_eq a c"
  by (cases a; cases b; cases c) (auto simp: feq_def)

lemma key_eq_refl_left: "key_eq a b \<Longrightarrow> key_eq a a"
  by (cases a; cases b) (auto simp: feq_def)

lemma py_set_subset: "set (py_set xs) \<subseteq> set xs"
  by (induction xs rule: py_set.induct) auto

lemma Counter_keys: "map fst (Counter xs) = py_set xs"
  by (induction xs rule: Counter.induct) auto

lemma length_Counter: "length (Counter xs) = length (py_set xs)"
  by (metis Counter_keys length_map)

lemma Counter_count_pos: "(a, c) \<in> set (Counter xs) \<Longrightarrow> 0 < c"
  by (induction xs rule: Counter.induct) auto

lemma Counter_count:
  "(a, c) \<in> set (Counter xs) \<Longrightarrow>
     c = (if key_eq a a then length (filter (\<lambda>e. key_eq e a) xs) else 1)"
proof (induction xs rule: Counter.induct)
  case 1
  then show ?case by simp
next
  case (2 e es)
  show ?case
  proof (cases "(a, c) = (e, Suc (length (filter (key_eq e) es)))")
    case True
    have "filter (key_eq e) es = filter (\<lambda>k. key_eq k e) es"
      by (rule filter_cong) (auto simp: key_eq_sym)
    moreover have "\<not> key_eq e e \<Longrightarrow> filter (key_eq e) es = []"
      by (auto simp: filter_empty_conv dest: key_eq_refl_left)
    ultimately show ?thesis using True by auto
  next
    case False
    with "2.prems" have mem: "(a, c) \<in> set (Counter (filter (\<lambda>k. \<not> key_eq e k) es))"
      by auto
    then have "fst (a, c) \<in> set (map fst (Counter (filter (\<lambda>k. \<not> key_eq e k) es)))"
      unfolding set_map by (rule imageI)
    then have "a \<in> set (py_set (filter (\<lambda>k. \<not> key_eq e k) es))"
      unfolding Counter_keys by simp
    then have na: "\<not> key_eq e a"
      using py_set_subset by fastforce
    have "filter (\<lambda>k. key_eq k a) (filter (\<lambda>k. \<not> key_eq e k) es) = filter (\<lambda>k. key_eq k a) es"
      unfolding filter_filter
      by (rule filter_cong) (use na key_eq_trans key_eq_sym in blast)+
    with "2.IH"[OF mem] na show ?thesis
      by (auto simp: key_eq_sym)
  qed
qed

lemma Counter_count_le: "(a, c) \<in> set (Counter xs) \<Longrightarrow> c \<le> length xs"
proof (induction xs rule: Counter.induct)
  case 1
  then show ?case by simp
next
  case (2 e es)
  from "2.prems" consider "c = Suc (length (filter (key_eq e) es))"
    | "(a, c) \<in> set (Counter (filter (\<lambda>k. \<not> key_eq e k) es))"
    by auto
  then show ?case
  proof cases
    case 1
    then show ?thesis by simp
  next
    case 2
    from "2.IH"[OF this] have "c \<le> length es"
      by (rule order_trans) (rule length_filter_le)
    then show ?thesis by simp
  qed
qed

lemma counter_get_Counter: "counter_get (Counter xs) k = length (filter (\<lambda>e. key_eq e k) xs)"
proof (induction xs rule: Counter.induct)
  case 1
  then show ?case by simp
next
  case (2 e es)
  have a: "key_eq e k \<Longrightarrow> filter (key_eq e) es = filter (\<lambda>x. key_eq x k) es"
    by (rule filter_cong) (use key_eq_trans key_eq_sym in blast)+
  have b: "\<not> key_eq e k \<Longrightarrow>
     filter (\<lambda>x. key_eq x k) (filter (\<lambda>x. \<not> key_eq e x) es) = filter (\<lambda>x. key_eq x k) es"
    unfolding filter_filter
    by (rule filter_cong) (use key_eq_trans key_eq_sym in blast)+
  show ?case using 2 a b by auto
qed

subsection \<open>Sums, means and deviations of finite values\<close>

lemma is_finite_iff: "is_finite v \<longleftrightarrow> (\<exists>r. v = Fin r)"
  by (cases v) (auto simp: is_finite_def)

lemma all_finite_map: "(\<forall>v\<in>set xs. is_finite v) \<Longrightarrow> \<exists>rs. xs = map Fin rs"
proof (induction xs)
  case Nil
  then show ?case by simp
next
  case (Cons x xs)
  then obtain rs r where "xs = map Fin rs" "x = Fin r"
    by (auto simp: is_finite_iff)
  then have "x # xs = map Fin (r # rs)" by simp
  then show ?case by (rule exI)
qed

lemma np_sum_Fin: "np_sum (map Fin rs) = Fin (sum_list rs)"
  by (induction rs) (auto simp: np_sum_def)

lemma py_sum_Fin_aux: "foldl fadd (Fin a) (map Fin rs) = Fin (a + sum_list rs)"
  by (induction rs arbitrary: a) (auto simp: algebra_simps)

lemma py_sum_Fin: "py_sum (map Fin rs) = Fin (sum_list rs)"
  by (simp add: py_sum_def py_sum_Fin_aux)

lemma np_mean_Fin: "rs \<noteq> [] \<Longrightarrow> np_mean (map Fin rs) = Fin (sum_list rs / real (length rs))"
  by (simp add: np_mean_def np_sum_Fin)

lemma np_std_Fin: "rs \<noteq> [] \<Longrightarrow> \<exists>r\<ge>0. np_std (map Fin rs) = Fin r"
proof -
  assume ne: "rs \<noteq> []"
  define m where "m = sum_list rs / real (length rs)"
  have sq: "map (\<lambda>v. fmul (fabs (fsub v (Fin m))) (fabs (fsub v (Fin m)))) (map Fin rs)
     = map Fin (map (\<lambda>r. \<bar>r - m\<bar> * \<bar>r - m\<bar>) rs)"
    by (simp add: fsub_def)
  have nn: "0 \<le> sum_list (map (\<lambda>r. \<bar>r - m\<bar> * \<bar>r - m\<bar>) rs)"
    by (rule sum_list_nonneg) auto
  have "np_std (map Fin rs)
     = fsqrt (Fin (sum_list (map (\<lambda>r. \<bar>r - m\<bar> * \<bar>r - m\<bar>) rs) / real (length rs)))"
    using ne unfolding np_std_def Let_def np_mean_Fin[OF ne] m_def[symmetric] sq
    by (subst np_mean_Fin) auto
  also have "\<dots> = Fin (sqrt (sum_list (map (\<lambda>r. \<bar>r - m\<bar> * \<bar>r - m\<bar>) rs) / real (length rs)))"
    using nn by (simp add: divide_nonneg_nonneg not_less)
  finally show ?thesis
    using nn by (auto intro!: exI[of _ "sqrt (sum_list (map (\<lambda>r. \<bar>r - m\<bar> * \<bar>r - m\<bar>) rs) / real (length rs))"])
qed

lemma np_std_finite:
  assumes "xs \<noteq> []" "\<forall>v\<in>set xs. is_finite v"
  shows "\<exists>r\<ge>0. np_std xs = Fin r"
proof -
  from all_finite_map[OF assms(2)] obtain rs where "xs = map Fin rs" by blast
  with assms(1) np_std_Fin[of rs] show ?thesis by auto
qed

lemma np_mean_finite:
  assumes "xs \<noteq> []" "\<forall>v\<in>set xs. is_finite v"
  shows "is_finite (np_mean xs)"
proof -
  from all_finite_map[OF assms(2)] obtain rs where "xs = map Fin rs" by blast
  with assms(1) np_mean_Fin[of rs] show ?thesis by (auto simp: is_finite_iff)
qed

lemma float_counts_finite: "\<forall>v\<in>set (float_counts cs). is_finite v"
  by (auto simp: float_counts_def is_finite_def)

lemma float_counts_sum: "np_sum (float_counts cs) = Fin (real (sum_list cs))"
  by (induction cs) (auto simp: np_sum_def float_counts_def)

lemma length_float_counts [simp]: "length (float_counts cs) = length cs"
  by (simp add: float_counts_def)

lemma py_index_less: "py_index xs v = Inr i \<Longrightarrow> i < length xs"
  by (induction xs arbitrary: i) (auto split: if_splits sum.splits)

lemma first_max_less: "first_max xs = Inr i \<Longrightarrow> i < length xs"
  by (auto simp: first_max_def split: sum.splits dest: py_index_less)

lemma length_xcorr [simp]: "length (xcorr py pyxax ny) = 2 * ny - 1"
  by (simp add: xcorr_def)

lemma length_pad_hist: "length (pad_hist ny pyxa) = 2 * (ny - 1) + length pyxa"
  by (simp add: pad_hist_def)

lemma length_repad: "length (repad ny imax pyxa) = 2 * ny - 2 - imax + length pyxa + imax"
  by (simp add: repad_def)

subsection \<open>The rows of the conditional distributions\<close>

lemma repad_finite:
  "\<forall>v\<in>set pyxa. is_finite v \<Longrightarrow> \<forall>v\<in>set (repad ny imax pyxa). is_finite v"
  by (auto simp: repad_def is_finite_def)

lemma aligned_hist_finite: "aligned_hist py yrange yx = Inr h \<Longrightarrow> \<forall>v\<in>set h. is_finite v"
  using repad_finite[OF float_counts_finite]
  by (auto simp: aligned_hist_def Let_def split: sum.splits)

lemma aligned_hist_length:
  assumes "aligned_hist py yrange yx = Inr h"
  shows "length h = 3 * length yrange - 2"
proof -
  from assms obtain imax where
    im: "first_max (xcorr py (pad_hist (length yrange)
           (float_counts (map (counter_get (Counter yx)) yrange))) (length yrange)) = Inr imax"
    and h: "h = repad (length yrange) imax (float_counts (map (counter_get (Counter yx)) yrange))"
    by (auto simp: aligned_hist_def Let_def split: sum.splits)
  from first_max_less[OF im] have "imax < 2 * length yrange - 1" by simp
  then show ?thesis unfolding h length_repad by simp
qed

lemma continuous_hist_finite: "continuous_hist self y_te yx = Inr h \<Longrightarrow> \<forall>v\<in>set h. is_finite v"
  using float_counts_finite
  by (auto simp: continuous_hist_def Let_def split: sum.splits)

lemma continuous_hist_length:
  "continuous_hist self y_te yx = Inr h \<Longrightarrow>
   \<exists>dv. discretized_values y_te NUMERICAL (ffactor self) (maxdev self) = Inr dv \<and> length h = length dv"
  by (auto simp: continuous_hist_def Let_def split: sum.splits)

lemma cond_hist_finite: "cond_hist self y_te py yrange yx = Inr h \<Longrightarrow> \<forall>v\<in>set h. is_finite v"
  using continuous_hist_finite aligned_hist_finite
  by (auto simp: cond_hist_def split: sum.splits if_splits)

lemma cond_hist_length:
  assumes "cond_hist self y_te py yrange yx = Inr h" "cond_hist self y_te py yrange yx' = Inr h'"
  shows "length h = length h'"
proof -
  from assms(1) obtain n l where
    n: "count_unique y_te = Inr n"
    and l: "len_discretized_values y_te NUMERICAL (ffactor self) (maxdev self) = Inr l"
    by (auto simp: cond_hist_def split: sum.splits)
  show ?thesis
  proof (cases "n > l")
    case True
    with assms n l have "continuous_hist self y_te yx = Inr h" "continuous_hist self y_te yx' = Inr h'"
      by (auto simp: cond_hist_def)
    then show ?thesis by (auto dest!: continuous_hist_length)
  next
    case False
    with assms n l have "aligned_hist py yrange yx = Inr h" "aligned_hist py yrange yx' = Inr h'"
      by (auto simp: cond_hist_def)
    then show ?thesis by (simp add: aligned_hist_length)
  qed
qed

lemma normalize_finite:
  assumes "\<forall>v\<in>set h. is_finite v" "feq (np_sum h) (Fin (real c))" "0 < c"
  shows "\<forall>v\<in>set (normalize h). is_finite v" and "h \<noteq> []"
proof -
  from all_finite_map[OF assms(1)] obtain rs where h: "h = map Fin rs" by blast
  from assms(2) have s: "np_sum h = Fin (real c)" by (simp add: feq_def)
  with assms(3) show "\<forall>v\<in>set (normalize h). is_finite v"
    by (auto simp: normalize_def h is_finite_def)
  from s assms(3) show "h \<noteq> []" by (auto simp: np_sum_def)
qed

lemma length_normalize [simp]: "length (normalize h) = length h"
  by (simp add: normalize_def)

lemma cond_dists_rows:
  assumes "\<forall>(a, c)\<in>set cx. 0 < c" "cond_dists self xd y_te py yrange cx = Inr pyx"
  shows "\<forall>r\<in>set pyx. r \<noteq> [] \<and> (\<forall>v\<in>set r. is_finite v) \<and>
           (\<exists>yx h. cond_hist self y_te py yrange yx = Inr h \<and> length r = length h)"
  using assms
proof (induction cx arbitrary: pyx)
  case Nil
  then show ?case by simp
next
  case (Cons p cx)
  obtain a c where p: "p = (a, c)" by (cases p)
  from Cons.prems(1) p have c: "0 < c" and rest: "\<forall>(a, c)\<in>set cx. 0 < c" by auto
  show ?case
  proof (cases "int c > minc self")
    case False
    with Cons.prems(2) p have "cond_dists self xd y_te py yrange cx = Inr pyx" by simp
    from Cons.IH[OF rest this] show ?thesis .
  next
    case True
    with Cons.prems(2) p obtain h pyx' where
      h: "cond_hist self y_te py yrange (select_rows xd a y_te) = Inr h"
      and eq: "feq (np_sum h) (Fin (real c))"
      and tl: "cond_dists self xd y_te py yrange cx = Inr pyx'"
      and pyx: "pyx = normalize h # pyx'"
      by (auto split: sum.splits if_splits)
    from normalize_finite[OF cond_hist_finite[OF h] eq c]
    have "\<forall>v\<in>set (normalize h). is_finite v" "normalize h \<noteq> []"
      by (auto simp: normalize_def)
    moreover have "\<exists>yx h'. cond_hist self y_te py yrange yx = Inr h' \<and> length (normalize h) = length h'"
      using h by auto
    ultimately show ?thesis
      using Cons.IH[OF rest tl] unfolding pyx by simp
  qed
qed

lemma cond_dists_rect:
  assumes "\<forall>(a, c)\<in>set cx. 0 < c" "cond_dists self xd y_te py yrange cx = Inr pyx"
    "r \<in> set pyx" "r' \<in> set pyx"
  shows "length r = length r'"
proof -
  from cond_dists_rows[OF assms(1,2)] assms(3) obtain yx h where
    h: "cond_hist self y_te py yrange yx = Inr h" "length r = length h" by blast
  from cond_dists_rows[OF assms(1,2)] assms(4) obtain yx' h' where
    h': "cond_hist self y_te py yrange yx' = Inr h'" "length r' = length h'" by blast
  from cond_hist_length[OF h(1) h'(1)] h(2) h'(2) show ?thesis by simp
qed

lemma column_means_finite:
  assumes "\<forall>r\<in>set pyx. (\<forall>v\<in>set r. is_finite v)" "\<forall>r\<in>set pyx. \<forall>r'\<in>set pyx. length r = length r'"
  shows "\<forall>v\<in>set (column_means pyx). is_finite v"
proof (cases pyx)
  case Nil
  then show ?thesis by (simp add: column_means_def)
next
  case (Cons row rest)
  have "is_finite (np_mean (map (\<lambda>r. r ! j) pyx))" if "j < length row" for j
  proof (rule np_mean_finite)
    show "map (\<lambda>r. r ! j) pyx \<noteq> []" using Cons by simp
    show "\<forall>v\<in>set (map (\<lambda>r. r ! j) pyx). is_finite v"
    proof
      fix v assume "v \<in> set (map (\<lambda>r. r ! j) pyx)"
      then obtain r where r: "r \<in> set pyx" "v = r ! j" by auto
      moreover have "row \<in> set pyx" using Cons by simp
      ultimately have "length r = length row" using assms(2) by blast
      with that r have "v \<in> set r" by simp
      with assms(1) r show "is_finite v" by blast
    qed
  qed
  then show ?thesis using Cons by (auto simp: column_means_def)
qed

lemma fsub_finite: "is_finite a \<Longrightarrow> is_finite b \<Longrightarrow> is_finite (fsub a b)"
  by (auto simp: is_finite_iff fsub_def)

lemma centered_finite:
  assumes "\<forall>r\<in>set pyx. (\<forall>v\<in>set r. is_finite v)" "\<forall>r\<in>set pyx. \<forall>r'\<in>set pyx. length r = length r'"
  shows "\<forall>v\<in>set (concat (centered pyx)). is_finite v"
proof
  fix v assume "v \<in> set (concat (centered pyx))"
  then obtain r p where r: "r \<in> set pyx" and p: "p \<in> set (zip r (column_means pyx))"
    and v: "v = fsub (fst p) (snd p)"
    by (auto simp: centered_def)
  obtain a b where ab: "p = (a, b)" by (cases p)
  from p ab have m: "(a, b) \<in> set (zip r (column_means pyx))" by simp
  have "a \<in> set r" by (rule set_zip_leftD[OF m])
  moreover have "b \<in> set (column_means pyx)" by (rule set_zip_rightD[OF m])
  ultimately have "fst p \<in> set r" "snd p \<in> set (column_means pyx)"
    unfolding ab by simp_all
  with assms(1) r column_means_finite[OF assms] have "is_finite (fst p)" "is_finite (snd p)"
    by blast+
  then show "is_finite v" unfolding v by (rule fsub_finite)
qed

lemma centered_nonempty:
  assumes "pyx \<noteq> []" "\<forall>r\<in>set pyx. r \<noteq> []"
  shows "concat (centered pyx) \<noteq> []"
proof -
  from assms obtain row rest where p: "pyx = row # rest" and ne: "row \<noteq> []"
    by (cases pyx) auto
  have "length (column_means pyx) = length row"
    by (simp add: column_means_def p)
  with ne have "zip row (column_means pyx) \<noteq> []"
    by (cases row; cases "column_means pyx") auto
  then show ?thesis by (simp add: centered_def p)
qed

lemma cds_score_value:
  assumes "cds_score self x_te y_te = Inr s"
  shows "\<exists>r\<ge>0. s = Fin r"
proof -
  obtain xd yd where ds: "discretized_sequences x_te y_te (ffactor self) (maxdev self) = Inr (xd, yd)"
    using assms by (cases "discretized_sequences x_te y_te (ffactor self) (maxdev self)")
      (auto simp: cds_score_def)
  define yrange where "yrange = py_sorted (map fst (Counter yd))"
  define py where "py = marginal (Counter yd) yrange"
  obtain pyx where cd: "cond_dists self xd y_te py yrange (Counter xd) = Inr pyx"
    using assms ds
    by (cases "cond_dists self xd y_te py yrange (Counter xd)")
      (auto simp: cds_score_def Let_def py_def yrange_def)
  have s: "s = (if length pyx = 0 then Fin 0 else np_std (concat (centered pyx)))"
    using assms ds cd by (auto simp: cds_score_def Let_def py_def yrange_def)
  have pos: "\<forall>(a, c)\<in>set (Counter xd). 0 < c"
    using Counter_count_pos by auto
  show ?thesis
  proof (cases "pyx = []")
    case True
    with s show ?thesis by simp
  next
    case False
    note rows = cond_dists_rows[OF pos cd]
    have rect: "\<forall>r\<in>set pyx. \<forall>r'\<in>set pyx. length r = length r'"
      using cond_dists_rect[OF pos cd] by blast
    have "\<forall>v\<in>set (concat (centered pyx)). is_finite v"
      by (rule centered_finite) (use rows rect in blast)+
    moreover have "concat (centered pyx) \<noteq> []"
      by (rule centered_nonempty) (use False rows in blast)+
    ultimately have "\<exists>r\<ge>0. np_std (concat (centered pyx)) = Fin r"
      by (intro np_std_finite)
    with s False show ?thesis by simp
  qed
qed

subsection \<open>Discretization of numeric sequences\<close>

lemma count_unique_ok: "Unhashable \<notin> set x \<Longrightarrow> count_unique x = Inr (length (py_set x))"
  by (simp add: count_unique_def)

lemma count_unique_err: "Unhashable \<in> set x \<Longrightarrow> count_unique x = Inl TypeError"
  by (simp add: count_unique_def)

lemma discretized_values_ok:
  "Unhashable \<notin> set x \<Longrightarrow> \<exists>vs. discretized_values x tx ff md = Inr vs"
  by (simp add: discretized_values_def count_unique_ok Let_def)

lemma must_discretize_ok:
  "Unhashable \<notin> set x \<Longrightarrow> \<exists>b. must_discretize x tx ff md nrm = Inr b"
  using discretized_values_ok[of x tx ff md]
  by (auto simp: must_discretize_def count_unique_ok len_discretized_values_def)

lemma length_floats: "Unhashable \<notin> set x \<Longrightarrow> length (floats x) = length x"
  by (induction x) (auto simp: floats_def split: elem.splits)

lemma floats_map_Num [simp]: "floats (map Num vs) = vs"
  by (induction vs) (auto simp: floats_def)

lemma length_standardize [simp]: "length (standardize x md) = length x"
  by (simp add: standardize_def first_pass_def Let_def)

lemma length_round_clip [simp]: "length (round_clip x ff md) = length x"
  by (simp add: round_clip_def Let_def)

lemma discretized_sequence_ok:
  assumes "Unhashable \<notin> set x"
  shows "\<exists>xd. discretized_sequence x tx ff md nrm = Inr xd \<and> length xd = length x
           \<and> Unhashable \<notin> set xd"
proof -
  from must_discretize_ok[OF assms] obtain b where
    b: "must_discretize x tx ff md nrm = Inr b" by blast
  show ?thesis
    using assms by (cases b) (auto simp: discretized_sequence_def b Let_def length_floats)
qed

lemma discretized_sequences_ok:
  assumes "Unhashable \<notin> set x" "Unhashable \<notin> set y"
  shows "\<exists>xd yd. discretized_sequences x y ff md = Inr (xd, yd) \<and> length xd = length x
           \<and> length yd = length y \<and> Unhashable \<notin> set xd \<and> Unhashable \<notin> set yd"
proof -
  from discretized_sequence_ok[OF assms(1)] obtain xd where
    "discretized_sequence x NUMERICAL ff md True = Inr xd" "length xd = length x"
    "Unhashable \<notin> set xd" by blast
  moreover from discretized_sequence_ok[OF assms(2)] obtain yd where
    "discretized_sequence y NUMERICAL ff md True = Inr yd" "length yd = length y"
    "Unhashable \<notin> set yd" by blast
  ultimately show ?thesis by (simp add: discretized_sequences_def)
qed

lemma cond_dists_none:
  "\<forall>(a, c)\<in>set cx. \<not> minc self < int c \<Longrightarrow> cond_dists self xd y_te py yrange cx = Inr []"
  by (induction cx) auto

subsection \<open>Running the model\<close>

lemmas eval_defs = cds_score_def discretized_sequences_def discretized_sequence_def
  must_discretize_def count_unique_def len_discretized_values_def discretized_values_def
  numerical_def NUMERICAL_def marginal_def normalize_def float_counts_def own_count_def
  py_sorted_def cond_hist_def aligned_hist_def pad_hist_def xcorr_def first_max_def repad_def
  select_rows_def np_sum_def np_mean_def np_std_def py_sum_def feq_def fgt_def fsub_def
  centered_def column_means_def continuous_hist_def rescale_def floats_def standardize_def
  first_pass_def within_maxdev_def round_clip_def int_elem_def signed_inf_def round_half_even_def Let_def

lemma ex_cds_xy: "cds_score ex_cfg ex_x ex_y = Inr (Fin (sqrt (1 / 32)))"
  by (simp add: eval_defs ex_x_def ex_y_def ex_cfg_def upt_rec)

lemma ex_cds_yx: "cds_score ex_cfg ex_y ex_x = Inr (Fin 0)"
  by (simp add: eval_defs ex_x_def ex_y_def ex_cfg_def upt_rec)

lemma discretized_sequence_unhashable:
  "Unhashable \<in> set x \<Longrightarrow> discretized_sequence x NUMERICAL ff md True = Inl TypeError"
  by (simp add: discretized_sequence_def must_discretize_def numerical_def count_unique_err)

lemma cds_score_unhashable:
  assumes "Unhashable \<in> set x_te \<or> Unhashable \<in> set y_te"
  shows "cds_score self x_te y_te = Inl TypeError"
proof (cases "Unhashable \<in> set x_te")
  case True
  then show ?thesis
    by (simp add: cds_score_def discretized_sequences_def discretized_sequence_unhashable)
next
  case False
  with assms have y: "Unhashable \<in> set y_te" by simp
  from discretized_sequence_ok[OF False] obtain xd where
    "discretized_sequence x_te NUMERICAL (ffactor self) (maxdev self) True = Inr xd" by blast
  then show ?thesis
    by (simp add: cds_score_def discretized_sequences_def discretized_sequence_unhashable[OF y])
qed

subsection \<open>The first maximum of a list of finite scores\<close>

lemma py_max_fold_finite:
  "\<exists>m. foldl (\<lambda>best v. if fgt v best then v else best) (Fin a) (map Fin rs) = Fin m
       \<and> m \<in> set (a # rs) \<and> (\<forall>r\<in>set (a # rs). r \<le> m)"
proof (induction rs arbitrary: a)
  case Nil
  then show ?case by simp
next
  case (Cons r rs)
  show ?case
  proof (cases "a < r")
    case True
    from Cons.IH[of r] obtain m where
      "foldl (\<lambda>best v. if fgt v best then v else best) (Fin r) (map Fin rs) = Fin m"
      "m \<in> set (r # rs)" "\<forall>q\<in>set (r # rs). q \<le> m" by blast
    with True show ?thesis by (auto simp: fgt_def intro!: exI[of _ m])
  next
    case False
    from Cons.IH[of a] obtain m where
      "foldl (\<lambda>best v. if fgt v best then v else best) (Fin a) (map Fin rs) = Fin m"
      "m \<in> set (a # rs)" "\<forall>q\<in>set (a # rs). q \<le> m" by blast
    with False show ?thesis by (auto simp: fgt_def intro!: exI[of _ m])
  qed
qed

lemma py_max_finite:
  assumes "rs \<noteq> []"
  shows "\<exists>m. py_max (map Fin rs) = Inr (Fin m) \<and> m \<in> set rs \<and> (\<forall>r\<in>set rs. r \<le> m)"
proof -
  from assms obtain a rs' where rs: "rs = a # rs'" by (cases rs) auto
  from py_max_fold_finite[of a rs'] show ?thesis unfolding rs by auto
qed

lemma py_index_finite:
  "m \<in> set rs \<Longrightarrow>
   \<exists>i. py_index (map Fin rs) (Fin m) = Inr i \<and> i < length rs \<and> rs ! i = m
        \<and> (\<forall>j<i. rs ! j \<noteq> m)"
proof (induction rs)
  case Nil
  then show ?case by simp
next
  case (Cons r rs)
  show ?case
  proof (cases "r = m")
    case True
    then show ?thesis by (simp add: feq_def)
  next
    case False
    with Cons obtain i where i: "py_index (map Fin rs) (Fin m) = Inr i" "i < length rs"
      "rs ! i = m" "\<forall>j<i. rs ! j \<noteq> m" by auto
    have "\<forall>j<Suc i. (r # rs) ! j \<noteq> m"
      using False i(4) by (auto simp: nth_Cons split: nat.splits)
    with False i show ?thesis by (auto simp: feq_def)
  qed
qed

lemma first_max_finite:
  assumes "rs \<noteq> []"
  shows "\<exists>i. first_max (map Fin rs) = Inr i \<and> i < length rs
           \<and> (\<forall>j<length rs. rs ! j \<le> rs ! i) \<and> (\<forall>j<i. rs ! j < rs ! i)"
proof -
  from py_max_finite[OF assms] obtain m where
    m: "py_max (map Fin rs) = Inr (Fin m)" "m \<in> set rs" "\<forall>r\<in>set rs. r \<le> m" by blast
  from py_index_finite[OF m(2)] obtain i where
    i: "py_index (map Fin rs) (Fin m) = Inr i" "i < length rs" "rs ! i = m" "\<forall>j<i. rs ! j \<noteq> m"
    by blast
  have "\<forall>j<length rs. rs ! j \<le> rs ! i" using m(3) i(3) by simp
  moreover have "\<forall>j<i. rs ! j < rs ! i"
  proof (intro allI impI)
    fix j assume j: "j < i"
    with i(2) have "rs ! j \<le> m" using m(3) by simp
    with i(4) j show "rs ! j < rs ! i" unfolding i(3) by (simp add: less_le)
  qed
  ultimately show ?thesis using m i by (auto simp: first_max_def)
qed

subsection \<open>Padding and correlation on finite values\<close>

lemma float_counts_map: "float_counts cs = map Fin (map real cs)"
  by (simp add: float_counts_def)

lemma pad_hist_Fin:
  "pad_hist ny (map Fin qs) = map Fin (replicate (ny - 1) 0 @ qs @ replicate (ny - 1) 0)"
  by (simp add: pad_hist_def)

lemma products_Fin:
  "map (\<lambda>p. fmul (fst p) (snd p)) (zip (map Fin ps) (map Fin ws))
     = map Fin (map (\<lambda>p. fst p * snd p) (zip ps ws))"
  by (induction ps arbitrary: ws) (auto simp: zip_Cons1 split: list.splits)

lemma py_sum_Fin_map: "py_sum (map (\<lambda>x. Fin (f x)) xs) = Fin (sum_list (map f xs))"
  using py_sum_Fin[of "map f xs"] by (simp add: comp_def)

lemma xcorr_Fin:
  "xcorr (map Fin ps) (map Fin qs) ny
     = map Fin (map (\<lambda>i. sum_list (map (\<lambda>p. fst p * snd p) (zip ps (take ny (drop i qs)))))
         [0..<2 * ny - 1])"
  unfolding xcorr_def
  by (simp add: drop_map take_map products_Fin py_sum_Fin_map comp_def)

subsection \<open>Rounding, clipping and the two passes\<close>

lemma sqrt_25: "sqrt 25 = 5"
  by (rule real_sqrt_unique) simp_all

lemma ex_tails_std: "np_std (floats ex_tails) = Fin 5"
  by (simp add: ex_tails_def eval_defs sqrt_25)

lemma ex_tails_first: "first_pass (floats ex_tails) =
    [Fin (- 8 / 5), Fin (- 6 / 5), Fin 0, Fin 0, Fin 0, Fin 0, Fin (6 / 5), Fin (8 / 5)]"
  unfolding first_pass_def ex_tails_std by (simp add: ex_tails_def eval_defs)

lemma ex_tails_within: "within_maxdev (first_pass (floats ex_tails)) 1 = [Fin 0, Fin 0, Fin 0, Fin 0]"
  unfolding ex_tails_first by (simp add: within_maxdev_def)

lemma ex_tails_standardize: "standardize (floats ex_tails) 1 =
    [MInf, MInf, NaN, NaN, NaN, NaN, PInf, PInf]"
  unfolding standardize_def Let_def ex_tails_within unfolding ex_tails_first
  by (simp add: eval_defs)

lemma ex_tails_count: "count_unique ex_tails = Inr 5"
  by (simp add: ex_tails_def count_unique_def feq_def)

lemma ex_tails_discretized:
  "discretized_sequence ex_tails NUMERICAL 1 1 True =
     Inr (map Num [Fin (- 1), Fin (- 1), NaN, NaN, NaN, NaN, Fin 1, Fin 1])"
proof -
  have "must_discretize ex_tails NUMERICAL 1 1 True = Inr True"
    by (simp add: must_discretize_def len_discretized_values_def discretized_values_def
        numerical_def ex_tails_count upt_rec)
  then show ?thesis
    unfolding discretized_sequence_def ex_tails_standardize
    by (simp add: round_clip_def fgt_def signed_inf_def Let_def)
qed

lemma clip_cases:
  assumes "lo \<le> hi"
  shows "(let w = (if fgt v (Fin (of_int hi)) then Fin (of_int hi) else v)
          in if flt w (Fin (of_int lo)) then Fin (of_int lo) else w) = NaN
       \<or> (\<exists>r. (let w = (if fgt v (Fin (of_int hi)) then Fin (of_int hi) else v)
          in if flt w (Fin (of_int lo)) then Fin (of_int lo) else w) = Fin r
            \<and> of_int lo \<le> r \<and> r \<le> of_int hi)"
  using assms by (cases v) (auto simp: fgt_def Let_def)

lemma round_clip_nth:
  "round_clip xs ff md =
     map (\<lambda>v. let w = (if fgt (fround (fmul v (Fin (of_int ff)))) (Fin (of_int (ff * md)))
                        then Fin (of_int (ff * md)) else fround (fmul v (Fin (of_int ff))))
               in if flt w (Fin (of_int (- ff * md))) then Fin (of_int (- ff * md)) else w) xs"
  by (simp add: round_clip_def Let_def)

lemma in_bin_range_Fin:
  "in_bin_range ff md (Fin r) \<longleftrightarrow> of_int (- ff * md) \<le> r \<and> r \<le> of_int (ff * md)"
  by (auto simp: in_bin_range_def fle_def feq_def)

lemma round_clip_range:
  assumes "0 \<le> ff * md" "v \<in> set (round_clip xs ff md)"
  shows "v = NaN \<or> in_bin_range ff md v"
proof -
  from assms(1) have le: "- ff * md \<le> ff * md" by simp
  from assms(2) obtain u where
    v: "v = (let w = (if fgt (fround (fmul u (Fin (of_int ff)))) (Fin (of_int (ff * md)))
                        then Fin (of_int (ff * md)) else fround (fmul u (Fin (of_int ff))))
               in if flt w (Fin (of_int (- ff * md))) then Fin (of_int (- ff * md)) else w)"
    unfolding round_clip_nth by auto
  from clip_cases[OF le, of "fround (fmul u (Fin (of_int ff)))"] show ?thesis
    unfolding v[symmetric] by (auto simp: in_bin_range_Fin)
qed

lemma clip_int:
  assumes "lo \<le> hi"
  shows "\<exists>j. (let w = (if fgt (Fin (of_int k)) (Fin (of_int hi)) then Fin (of_int hi)
                       else Fin (of_int k))
              in if flt w (Fin (of_int lo)) then Fin (of_int lo) else w) = Fin (of_int j)
            \<and> lo \<le> j \<and> j \<le> hi"
proof (cases "hi < k")
  case True
  with assms show ?thesis
    by (intro exI[of _ hi]) (simp add: fgt_def Let_def)
next
  case False
  note nk = this
  show ?thesis
  proof (cases "k < lo")
    case True
    with nk assms show ?thesis
      by (intro exI[of _ lo]) (simp add: fgt_def Let_def)
  next
    case False
    with nk show ?thesis
      by (intro exI[of _ k]) (simp add: fgt_def Let_def)
  qed
qed

lemma round_clip_finite:
  assumes "0 \<le> ff * md" "\<forall>u\<in>set xs. is_finite u" "v \<in> set (round_clip xs ff md)"
  shows "\<exists>k. v = Fin (of_int k) \<and> - ff * md \<le> k \<and> k \<le> ff * md"
proof -
  from assms(1) have le: "- ff * md \<le> ff * md" by simp
  from assms(3) obtain u where u: "u \<in> set xs" and
    v: "v = (let w = (if fgt (fround (fmul u (Fin (of_int ff)))) (Fin (of_int (ff * md)))
                        then Fin (of_int (ff * md)) else fround (fmul u (Fin (of_int ff))))
               in if flt w (Fin (of_int (- ff * md))) then Fin (of_int (- ff * md)) else w)"
    unfolding round_clip_nth by auto
  from assms(2) u obtain r where r: "u = Fin r" by (auto simp: is_finite_iff)
  define k where "k = round_half_even (r * of_int ff)"
  have f: "fround (fmul u (Fin (of_int ff))) = Fin (of_int k)"
    by (simp add: r k_def)
  from clip_int[OF le, of k] show ?thesis
    unfolding v f .
qed

lemma len_range: "length (map int_elem [- ff * md..ff * md]) = nat (2 * ff * md + 1)"
  by simp

lemma must_discretize_True:
  assumes "count_unique x = Inr n" "int n > 2 * ff * md + 1" "0 \<le> ff * md"
  shows "must_discretize x NUMERICAL ff md True = Inr True"
proof -
  have "2 * ff * md = 2 * (ff * md)" by simp
  with assms(2,3) have "nat (2 * (ff * md) + 1) < n" by linarith
  with assms show ?thesis
    by (simp add: must_discretize_def len_discretized_values_def discretized_values_def
        numerical_def Let_def)
qed

lemma np_std_Nil: "np_std [] = NaN"
  by (simp add: np_std_def np_mean_def np_sum_def signed_inf_def)

lemma fdiv_finite: "is_finite a \<Longrightarrow> s \<noteq> 0 \<Longrightarrow> is_finite (fdiv a (Fin s))"
  by (auto simp: is_finite_iff)

lemma floats_finite:
  "\<forall>e\<in>set x. \<exists>r. e = Num (Fin r) \<Longrightarrow> \<forall>v\<in>set (floats x). is_finite v"
  by (induction x) (auto simp: floats_def is_finite_def)

lemma first_pass_degenerate:
  assumes "\<forall>v\<in>set xs. is_finite v" "np_std xs = Fin 0"
  shows "within_maxdev (first_pass xs) md = []"
proof -
  have "\<not> flt (fabs (fdiv (fsub v (np_mean xs)) (Fin 0))) (Fin (of_int md))" if "v \<in> set xs" for v
  proof -
    from that assms(1) obtain r where r: "v = Fin r" by (auto simp: is_finite_iff)
    show ?thesis
      by (cases "np_mean xs") (auto simp: r fsub_def signed_inf_def)
  qed
  then show ?thesis
    by (auto simp: within_maxdev_def first_pass_def assms(2) filter_empty_conv)
qed

lemma first_pass_finite:
  assumes "\<forall>v\<in>set xs. is_finite v" "xs \<noteq> []" "np_std xs \<noteq> Fin 0"
  shows "\<forall>v\<in>set (first_pass xs). is_finite v"
proof -
  from np_std_finite[OF assms(2,1)] assms(3) obtain s where s: "np_std xs = Fin s" "s \<noteq> 0"
    by auto
  from np_mean_finite[OF assms(2,1)] have m: "is_finite (np_mean xs)" .
  show ?thesis
    unfolding first_pass_def s(1) using assms(1) m s(2)
    by (auto intro!: fdiv_finite fsub_finite)
qed

lemma standardize_finite:
  assumes "\<forall>v\<in>set xs. is_finite v"
    "np_std (within_maxdev (first_pass xs) md) = Fin s" "s \<noteq> 0"
  shows "\<forall>v\<in>set (standardize xs md). is_finite v"
proof -
  let ?xf = "within_maxdev (first_pass xs) md"
  from assms(2) have ne: "?xf \<noteq> []" using np_std_Nil by auto
  then have "first_pass xs \<noteq> []" by (auto simp: within_maxdev_def)
  then have xne: "xs \<noteq> []" by (auto simp: first_pass_def)
  have "np_std xs \<noteq> Fin 0"
    using first_pass_degenerate[OF assms(1)] ne by blast
  from first_pass_finite[OF assms(1) xne this] have f1: "\<forall>v\<in>set (first_pass xs). is_finite v" .
  then have "\<forall>v\<in>set ?xf. is_finite v" by (simp add: within_maxdev_def)
  from np_mean_finite[OF ne this] have m: "is_finite (np_mean ?xf)" .
  show ?thesis
    unfolding standardize_def Let_def assms(2) using f1 m assms(3)
    by (auto intro!: fdiv_finite fsub_finite)
qed

lemma sqrt_256_25: "sqrt (256 / 25) = 16 / 5"
  by (rule real_sqrt_unique) (simp_all add: power2_eq_square)

lemma sqrt_25_256: "sqrt (25 / 256) = 5 / 16"
  by (rule real_sqrt_unique) (simp_all add: power2_eq_square)

lemma ex_w_count: "count_unique ex_w = Inr 4"
  by (simp add: ex_w_def count_unique_def feq_def)

lemma ex_w_std: "np_std (floats ex_w) = Fin (16 / 5)"
  by (simp add: ex_w_def eval_defs sqrt_256_25)

lemma ex_w_first: "first_pass (floats ex_w) =
    [Fin (- 9 / 8), Fin (- 9 / 8), Fin (1 / 8), Fin (3 / 4), Fin (11 / 8)]"
  unfolding first_pass_def ex_w_std by (simp add: ex_w_def eval_defs)

lemma ex_w_within: "within_maxdev (first_pass (floats ex_w)) 1 = [Fin (1 / 8), Fin (3 / 4)]"
  unfolding ex_w_first by (simp add: within_maxdev_def)

lemma ex_w_within_std: "np_std (within_maxdev (first_pass (floats ex_w)) 1) = Fin (5 / 16)"
  unfolding ex_w_within by (simp add: eval_defs sqrt_25_256)

lemma ex_w_standardize: "standardize (floats ex_w) 1 = [Fin (- 5), Fin (- 5), Fin (- 1), Fin 1, Fin 3]"
  unfolding standardize_def Let_def ex_w_within_std unfolding ex_w_within ex_w_first
  by (simp add: eval_defs)

lemma ex_w_discretized:
  "discretized_sequence ex_w NUMERICAL 1 1 True =
     Inr (map Num [Fin (- 1), Fin (- 1), Fin (- 1), Fin 1, Fin 1])"
proof -
  have "must_discretize ex_w NUMERICAL 1 1 True = Inr True"
    by (rule must_discretize_True[OF ex_w_count]) simp_all
  then show ?thesis
    unfolding discretized_sequence_def ex_w_standardize
    by (simp add: round_clip_def fgt_def round_half_even_def Let_def)
qed

subsection \<open>The histogram of a bin and the assertion\<close>

lemma length_select_rows:
  "length xd = length y \<Longrightarrow>
   length (select_rows xd a y) = length (filter (\<lambda>e. key_eq e a) xd)"
  by (induction xd y rule: list_induct2) (auto simp: select_rows_def)

lemma set_select_rows: "set (select_rows xd a y) \<subseteq> set y"
  by (auto simp: select_rows_def dest: set_zip_rightD)

lemma key_eq_int_elem [simp]: "key_eq (int_elem k) (int_elem i) \<longleftrightarrow> k = i"
  by (simp add: int_elem_def feq_def)

lemma sum_list_delta:
  assumes "lo \<le> k" "k \<le> hi"
  shows "sum_list (map (\<lambda>i. if k = i then 1 else 0) [lo..hi]) = (1::nat)"
proof -
  have "sum_list (map (\<lambda>i. if k = i then 1 else 0) [lo..hi])
      = sum (\<lambda>i. if k = i then 1 else (0::nat)) (set [lo..hi])"
    by (rule sum_list_distinct_conv_sum_set) simp
  also have "\<dots> = 1" using assms by simp
  finally show ?thesis .
qed

lemma sum_counts_range:
  assumes "\<forall>e\<in>set es. \<exists>k. e = int_elem k \<and> lo \<le> k \<and> k \<le> hi"
  shows "sum_list (map (counter_get (Counter es)) (map int_elem [lo..hi])) = length es"
  using assms
proof (induction es)
  case Nil
  then show ?case by (simp add: counter_get_Counter)
next
  case (Cons e es)
  then obtain k where k: "e = int_elem k" "lo \<le> k" "k \<le> hi" by auto
  have "sum_list (map (counter_get (Counter (e # es))) (map int_elem [lo..hi]))
      = sum_list (map (\<lambda>i. (if k = i then 1 else 0)
          + length (filter (\<lambda>e. key_eq e (int_elem i)) es)) [lo..hi])"
    unfolding counter_get_Counter map_map comp_def
    by (rule arg_cong[where f=sum_list], rule map_cong) (auto simp: k(1))
  also have "\<dots> = sum_list (map (\<lambda>i. if k = i then 1 else 0) [lo..hi])
      + sum_list (map (\<lambda>i. length (filter (\<lambda>e. key_eq e (int_elem i)) es)) [lo..hi])"
    by (rule sum_list_addf)
  also have "sum_list (map (\<lambda>i. length (filter (\<lambda>e. key_eq e (int_elem i)) es)) [lo..hi])
      = sum_list (map (counter_get (Counter es)) (map int_elem [lo..hi]))"
    unfolding counter_get_Counter map_map comp_def ..
  also have "\<dots> = length es" using Cons by simp
  finally show ?case using sum_list_delta[OF k(2,3)] by simp
qed

lemma discretized_values_range:
  assumes "count_unique y = Inr n" "int n > 2 * ff * md + 1"
  shows "discretized_values y NUMERICAL ff md = Inr (map int_elem [- ff * md..ff * md])"
  using assms by (simp add: discretized_values_def numerical_def Let_def)

lemma discretized_sequence_no_norm:
  "discretized_sequence x tx ff md False = Inr (map Num (round_clip (floats x) ff md))"
  by (simp add: discretized_sequence_def must_discretize_def)

lemma rescale_finite:
  assumes "\<forall>e\<in>set y. \<exists>r. e = Num (Fin r)" "set yx \<subseteq> set y" "yx \<noteq> []"
    "np_std (floats y) \<noteq> Fin 0"
  shows "\<forall>v\<in>set (rescale y yx). is_finite v" and "length (rescale y yx) = length yx"
proof -
  from assms(1,2) have fyx: "\<forall>e\<in>set yx. \<exists>r. e = Num (Fin r)" by blast
  then have nu: "Unhashable \<notin> set yx" by auto
  from assms(2,3) have "y \<noteq> []" by auto
  moreover from assms(1) have "Unhashable \<notin> set y" by auto
  ultimately have "floats y \<noteq> []" using length_floats[of y] by auto
  from np_std_finite[OF this floats_finite[OF assms(1)]] assms(4) obtain s where
    s: "np_std (floats y) = Fin s" "s \<noteq> 0" by auto
  have "floats yx \<noteq> []" using length_floats[OF nu] assms(3) by auto
  from np_mean_finite[OF this floats_finite[OF fyx]] have m: "is_finite (np_mean (floats yx))" .
  show "\<forall>v\<in>set (rescale y yx). is_finite v"
    unfolding rescale_def s(1) using floats_finite[OF fyx] m s(2)
    by (auto intro!: fdiv_finite fsub_finite)
  show "length (rescale y yx) = length yx"
    by (simp add: rescale_def length_floats[OF nu])
qed

lemma astype_int_of_int [simp]: "astype_int (Fin (of_int k)) = k"
  by simp

lemma continuous_hist_sum:
  assumes "0 \<le> ffactor self * maxdev self"
    "\<forall>e\<in>set y. \<exists>r. e = Num (Fin r)" "set yx \<subseteq> set y" "yx \<noteq> []"
    "np_std (floats y) \<noteq> Fin 0"
    "count_unique y = Inr n" "int n > 2 * ffactor self * maxdev self + 1"
  shows "\<exists>h. continuous_hist self y yx = Inr h \<and> np_sum h = Fin (real (length yx))"
    and "\<forall>v\<in>set (round_clip (rescale y yx) (ffactor self) (maxdev self)).
           in_bin_range (ffactor self) (maxdev self) v"
proof -
  let ?ff = "ffactor self" and ?md = "maxdev self"
  let ?zs = "round_clip (rescale y yx) ?ff ?md"
  let ?es = "map (\<lambda>v. int_elem (astype_int v)) ?zs"
  note fin = rescale_finite[OF assms(2,3,4,5)]
  note rc = round_clip_finite[OF assms(1) fin(1)]
  have es: "\<forall>e\<in>set ?es. \<exists>k. e = int_elem k \<and> - ?ff * ?md \<le> k \<and> k \<le> ?ff * ?md"
  proof
    fix e assume "e \<in> set ?es"
    then obtain v where v: "v \<in> set ?zs" "e = int_elem (astype_int v)" by auto
    from rc[OF v(1)] obtain k where "v = Fin (of_int k)" "- ?ff * ?md \<le> k" "k \<le> ?ff * ?md"
      by blast
    with v(2) show "\<exists>k. e = int_elem k \<and> - ?ff * ?md \<le> k \<and> k \<le> ?ff * ?md"
      by auto
  qed
  have "continuous_hist self y yx
      = Inr (float_counts (map (counter_get (Counter ?es)) (map int_elem [- ?ff * ?md..?ff * ?md])))"
    by (simp add: continuous_hist_def discretized_sequence_no_norm
        discretized_values_range[OF assms(6,7)])
  moreover have "np_sum (float_counts (map (counter_get (Counter ?es))
        (map int_elem [- ?ff * ?md..?ff * ?md]))) = Fin (real (length yx))"
    unfolding float_counts_sum sum_counts_range[OF es] by (simp add: fin(2))
  ultimately show "\<exists>h. continuous_hist self y yx = Inr h \<and> np_sum h = Fin (real (length yx))"
    by simp
  show "\<forall>v\<in>set ?zs. in_bin_range ?ff ?md v"
  proof
    fix v assume "v \<in> set ?zs"
    from rc[OF this] obtain k where k: "v = Fin (of_int k)" "- ?ff * ?md \<le> k" "k \<le> ?ff * ?md"
      by blast
    show "in_bin_range ?ff ?md v"
      unfolding k(1) in_bin_range_Fin of_int_le_iff using k(2,3) by simp
  qed
qed

lemma cond_hist_continuous:
  assumes "count_unique y = Inr n" "int n > 2 * ffactor self * maxdev self + 1"
    "0 \<le> ffactor self * maxdev self"
  shows "cond_hist self y py yrange yx = continuous_hist self y yx"
proof -
  have "2 * ffactor self * maxdev self = 2 * (ffactor self * maxdev self)" by simp
  with assms(2,3) have "nat (2 * (ffactor self * maxdev self) + 1) < n" by linarith
  then show ?thesis
    by (simp add: cond_hist_def assms(1) len_discretized_values_def
        discretized_values_range[OF assms(1,2)])
qed

lemma cond_dists_ok:
  assumes "\<forall>(a, c)\<in>set cx. minc self < int c \<longrightarrow>
     (\<exists>h. cond_hist self y_te py yrange (select_rows xd a y_te) = Inr h
          \<and> feq (np_sum h) (Fin (real c)))"
  shows "\<exists>pyx. cond_dists self xd y_te py yrange cx = Inr pyx"
  using assms
proof (induction cx)
  case Nil
  then show ?case by simp
next
  case (Cons p cx)
  obtain a c where p: "p = (a, c)" by (cases p)
  from Cons.prems have rest: "\<forall>(a, c)\<in>set cx. minc self < int c \<longrightarrow>
     (\<exists>h. cond_hist self y_te py yrange (select_rows xd a y_te) = Inr h
          \<and> feq (np_sum h) (Fin (real c)))" by simp
  from Cons.IH[OF rest] obtain pyx where pyx: "cond_dists self xd y_te py yrange cx = Inr pyx"
    by blast
  show ?case
  proof (cases "minc self < int c")
    case True
    with Cons.prems p obtain h where
      "cond_hist self y_te py yrange (select_rows xd a y_te) = Inr h"
      "feq (np_sum h) (Fin (real c))" by auto
    with True pyx p show ?thesis by simp
  next
    case False
    with pyx p show ?thesis by simp
  qed
qed

lemma cond_dists_asserted:
  assumes "cond_dists self xd y_te py yrange cx = Inr pyx" "(a, c) \<in> set cx" "minc self < int c"
  shows "\<exists>h. cond_hist self y_te py yrange (select_rows xd a y_te) = Inr h
          \<and> feq (np_sum h) (Fin (real c))"
  using assms
proof (induction cx arbitrary: pyx)
  case Nil
  then show ?case by simp
next
  case (Cons p cx)
  obtain a' c' where p: "p = (a', c')" by (cases p)
  show ?case
  proof (cases "minc self < int c'")
    case False
    with Cons.prems p have "cond_dists self xd y_te py yrange cx = Inr pyx" "(a, c) \<in> set cx"
      by auto
    from Cons.IH[OF this Cons.prems(3)] show ?thesis .
  next
    case True
    with Cons.prems(1) p obtain h pyx' where
      h: "cond_hist self y_te py yrange (select_rows xd a' y_te) = Inr h"
        "feq (np_sum h) (Fin (real c'))"
      and tl: "cond_dists self xd y_te py yrange cx = Inr pyx'"
      by (auto split: sum.splits if_splits)
    show ?thesis
    proof (cases "(a, c) = (a', c')")
      case True
      with h show ?thesis by auto
    next
      case False
      with Cons.prems(2) p have "(a, c) \<in> set cx" by auto
      from Cons.IH[OF tl this Cons.prems(3)] show ?thesis .
    qed
  qed
qed

lemma cond_dists_error:
  assumes "cond_dists self xd y_te py yrange cx = Inl e"
  shows "e = AssertionError
       \<or> (\<exists>(a, c)\<in>set cx. minc self < int c
             \<and> cond_hist self y_te py yrange (select_rows xd a y_te) = Inl e)"
  using assms
proof (induction cx)
  case Nil
  then show ?case by simp
next
  case (Cons p cx)
  obtain a c where p: "p = (a, c)" by (cases p)
  show ?case
  proof (cases "cond_dists self xd y_te py yrange cx = Inl e")
    case True
    from Cons.IH[OF this] show ?thesis by auto
  next
    case False
    with Cons.prems p show ?thesis
      by (auto split: sum.splits if_splits)
  qed
qed

lemma cds_score_loop:
  assumes "discretized_sequences x_te y_te (ffactor self) (maxdev self) = Inr (xd, yd)"
  shows "cds_score self x_te y_te =
     (case cond_dists self xd y_te (marginal (Counter yd) (py_sorted (map fst (Counter yd))))
             (py_sorted (map fst (Counter yd))) (Counter xd) of
        Inl e \<Rightarrow> Inl e
      | Inr pyx \<Rightarrow> if length pyx = 0 then Inr (Fin 0) else Inr (np_std (concat (centered pyx))))"
  by (simp add: cds_score_def assms Let_def)

lemma ex_xy_discretized:
  "discretized_sequences ex_x ex_y (ffactor ex_cfg) (maxdev ex_cfg) = Inr (ex_x, ex_y)"
  by (simp add: eval_defs ex_x_def ex_y_def ex_cfg_def)

lemma ex_c_nan_discretized:
  "discretized_sequences ex_c ex_nan (ffactor ex_cfg) (maxdev ex_cfg) = Inr (ex_c, ex_nan)"
  by (simp add: eval_defs ex_c_def ex_nan_def ex_cfg_def)

lemma ex_c_counter: "Counter ex_c = [(Num (Fin 5), 2)]"
  by (simp add: ex_c_def feq_def)

lemma ex_c_nan_hist:
  "bin_hist ex_cfg ex_c ex_nan ex_nan (Num (Fin 5)) = Inr [Fin 0, Fin 0, Fin 0, Fin 0]"
  by (simp add: bin_hist_def eval_defs ex_c_def ex_nan_def ex_cfg_def upt_rec numeral_2_eq_2)

lemma upto_unit: "[- 1..1] = [- 1, 0, 1::int]"
  by code_simp

lemma ex_vw_value: "cds_score ex_cfg ex_v ex_w = Inr (Fin (sqrt (1 / 54)))"
  by (simp add: eval_defs ex_v_def ex_w_def ex_cfg_def upt_rec sqrt_256_25 upto_unit)

subsection \<open>The store model computes the same values and preserves the store\<close>

lemma preserved_refl [simp]: "preserved s s"
  by (simp add: preserved_def)

lemma preserved_trans: "preserved s s' \<Longrightarrow> preserved s' s'' \<Longrightarrow> preserved s s''"
  by (auto simp: preserved_def)

lemma alloc_preserved: "alloc s xs = (p, s') \<Longrightarrow> preserved s s' \<and> p = fresh s \<and> p < fresh s'
    \<and> arrays s' p = xs"
  by (auto simp: alloc_def preserved_def)

lemma assign_where_Num:
  "arrays s p = map Num vs \<Longrightarrow>
   arrays (assign_where s p cond v) p = map Num (map (\<lambda>w. if cond w then v else w) vs)"
  by (simp add: assign_where_def)

lemma assign_where_other [simp]: "q \<noteq> p \<Longrightarrow> arrays (assign_where s p cond v) q = arrays s q"
  by (simp add: assign_where_def)

lemma assign_where_fresh [simp]: "fresh (assign_where s p cond v) = fresh s"
  by (simp add: assign_where_def)

lemma standardize_st_spec:
  assumes "standardize_st s p md = (p', s')" "p < fresh s"
  shows "preserved s s' \<and> fresh s \<le> p' \<and> p' < fresh s'
       \<and> arrays s' p' = map Num (standardize (floats (arrays s p)) md)"
  using assms
  by (auto simp: standardize_st_def alloc_def preserved_def standardize_def Let_def)

lemma discretized_sequence_st_spec:
  assumes "discretized_sequence_st s p tx ff md nrm = (r, s')" "p < fresh s"
  shows "preserved s s'
       \<and> (case r of
            Inl e \<Rightarrow> discretized_sequence (arrays s p) tx ff md nrm = Inl e
          | Inr p' \<Rightarrow> p' < fresh s'
               \<and> discretized_sequence (arrays s p) tx ff md nrm = Inr (arrays s' p'))"
proof (cases "must_discretize (arrays s p) tx ff md nrm")
  case (Inl e)
  with assms show ?thesis
    by (auto simp: discretized_sequence_st_def discretized_sequence_def)
next
  case (Inr b)
  show ?thesis
  proof (cases b)
    case False
    with Inr assms show ?thesis
      by (auto simp: discretized_sequence_st_def discretized_sequence_def)
  next
    case True
    obtain p1 s1 where ps: "(if nrm then standardize_st s p md else (p, s)) = (p1, s1)"
      by (cases "if nrm then standardize_st s p md else (p, s)")
    have s1: "preserved s s1 \<and> p1 < fresh s1
        \<and> floats (arrays s1 p1) = (if nrm then standardize (floats (arrays s p)) md
                                    else floats (arrays s p))"
    proof (cases nrm)
      case True
      with ps have "standardize_st s p md = (p1, s1)" by simp
      from standardize_st_spec[OF this assms(2)] True show ?thesis by simp
    next
      case False
      with ps assms(2) show ?thesis by auto
    qed
    let ?x1 = "if nrm then standardize (floats (arrays s p)) md else floats (arrays s p)"
    let ?r = "map (\<lambda>v. fround (fmul v (Fin (of_int ff)))) ?x1"
    let ?s2 = "snd (alloc s1 (map Num ?r))"
    let ?p2 = "fresh s1"
    let ?vmax = "Fin (of_int (ff * md))" and ?vmin = "Fin (of_int (- ff * md))"
    let ?s3 = "assign_where ?s2 ?p2 (\<lambda>v. fgt v ?vmax) ?vmax"
    let ?s4 = "assign_where ?s3 ?p2 (\<lambda>v. flt v ?vmin) ?vmin"
    have res: "r = Inr ?p2" "s' = ?s4"
      using assms(1) Inr True ps s1
      by (auto simp: discretized_sequence_st_def Let_def alloc_def split: prod.splits)
    have a2: "arrays ?s2 ?p2 = map Num ?r" by (simp add: alloc_def)
    have a3: "arrays ?s3 ?p2 = map Num (map (\<lambda>w. if fgt w ?vmax then ?vmax else w) ?r)"
      by (rule assign_where_Num[OF a2])
    have a4: "arrays ?s4 ?p2 = map Num (round_clip ?x1 ff md)"
      unfolding assign_where_Num[OF a3] by (simp add: round_clip_def Let_def)
    have pr: "preserved s1 ?s4"
      by (auto simp: preserved_def alloc_def)
    have "discretized_sequence (arrays s p) tx ff md nrm = Inr (map Num (round_clip ?x1 ff md))"
      by (simp add: discretized_sequence_def Inr True Let_def)
    with a4 pr s1 res show ?thesis
      by (auto intro: preserved_trans simp: alloc_def)
  qed
qed

lemma preserved_read: "preserved s s' \<Longrightarrow> p < fresh s \<Longrightarrow> arrays s' p = arrays s p"
  by (simp add: preserved_def)

lemma preserved_less: "preserved s s' \<Longrightarrow> p < fresh s \<Longrightarrow> p < fresh s'"
  by (simp add: preserved_def)

lemma discretized_sequences_st_spec:
  assumes "discretized_sequences_st s px py ff md = (r, s')" "px < fresh s" "py < fresh s"
  shows "preserved s s'
       \<and> (case r of
            Inl e \<Rightarrow> discretized_sequences (arrays s px) (arrays s py) ff md = Inl e
          | Inr (pxd, pyd) \<Rightarrow> pxd < fresh s' \<and> pyd < fresh s'
               \<and> discretized_sequences (arrays s px) (arrays s py) ff md
                   = Inr (arrays s' pxd, arrays s' pyd))"
proof -
  obtain r1 s1 where d1: "discretized_sequence_st s px NUMERICAL ff md True = (r1, s1)"
    by (cases "discretized_sequence_st s px NUMERICAL ff md True")
  note sp1 = discretized_sequence_st_spec[OF d1 assms(2)]
  then have p1: "preserved s s1" by simp
  show ?thesis
  proof (cases r1)
    case (Inl e)
    with assms(1) d1 sp1 show ?thesis
      by (auto simp: discretized_sequences_st_def discretized_sequences_def)
  next
    case (Inr pxd)
    with sp1 have x: "pxd < fresh s1"
      "discretized_sequence (arrays s px) NUMERICAL ff md True = Inr (arrays s1 pxd)" by simp_all
    obtain r2 s2 where d2: "discretized_sequence_st s1 py NUMERICAL ff md True = (r2, s2)"
      by (cases "discretized_sequence_st s1 py NUMERICAL ff md True")
    note sp2 = discretized_sequence_st_spec[OF d2 preserved_less[OF p1 assms(3)]]
    then have p2: "preserved s1 s2" by simp
    have ay: "arrays s1 py = arrays s py" by (rule preserved_read[OF p1 assms(3)])
    have ax: "arrays s2 pxd = arrays s1 pxd" by (rule preserved_read[OF p2 x(1)])
    from assms(1) d1 d2 Inr have res: "(r, s') = (case r2 of Inl e \<Rightarrow> (Inl e, s2)
        | Inr pyd \<Rightarrow> (Inr (pxd, pyd), s2))"
      by (simp add: discretized_sequences_st_def split: sum.splits)
    show ?thesis
    proof (cases r2)
      case (Inl e)
      with res sp2 x ay p1 p2 show ?thesis
        by (auto simp: discretized_sequences_def intro: preserved_trans)
    next
      case (Inr pyd)
      with res sp2 x ay ax p1 p2 show ?thesis
        by (auto simp: discretized_sequences_def preserved_less intro: preserved_trans)
    qed
  qed
qed

lemma cond_hist_st_spec:
  assumes "cond_hist_st self s py_te py yrange pyx = (r, s')" "py_te < fresh s" "pyx < fresh s"
  shows "preserved s s' \<and> r = cond_hist self (arrays s py_te) py yrange (arrays s pyx)"
proof (cases "count_unique (arrays s py_te)")
  case (Inl e)
  with assms show ?thesis by (auto simp: cond_hist_st_def cond_hist_def)
next
  case n: (Inr n)
  show ?thesis
  proof (cases "len_discretized_values (arrays s py_te) NUMERICAL (ffactor self) (maxdev self)")
    case (Inl e)
    with n assms show ?thesis by (auto simp: cond_hist_st_def cond_hist_def)
  next
    case l: (Inr l)
    show ?thesis
    proof (cases "n > l")
      case False
      with n l assms show ?thesis by (auto simp: cond_hist_st_def cond_hist_def)
    next
      case True
      let ?yx1 = "map Num (rescale (arrays s py_te) (arrays s pyx))"
      obtain p1 s1 where al: "alloc s ?yx1 = (p1, s1)" by (cases "alloc s ?yx1")
      note a = alloc_preserved[OF al]
      obtain r2 s2 where d: "discretized_sequence_st s1 p1 NUMERICAL (ffactor self) (maxdev self)
          False = (r2, s2)"
        by (cases "discretized_sequence_st s1 p1 NUMERICAL (ffactor self) (maxdev self) False")
      from a have p1: "p1 < fresh s1" by blast
      note sp = discretized_sequence_st_spec[OF d p1]
      from a sp have pres: "preserved s s2" by (auto intro: preserved_trans)
      have ay: "arrays s2 py_te = arrays s py_te" by (rule preserved_read[OF pres assms(2)])
      from a have a1: "arrays s1 p1 = ?yx1" by blast
      from assms(1) n l True al d have res: "(r, s') = (case r2 of Inl e \<Rightarrow> (Inl e, s2)
          | Inr p2 \<Rightarrow>
              (let cyx = Counter (map (\<lambda>v. int_elem (astype_int v)) (floats (arrays s2 p2)))
               in case discretized_values (arrays s2 py_te) NUMERICAL
                         (ffactor self) (maxdev self) of
                    Inl e \<Rightarrow> (Inl e, s2)
                  | Inr dv \<Rightarrow> (Inr (float_counts (map (counter_get cyx) dv)), s2)))"
        by (simp add: cond_hist_st_def split: sum.splits)
      have ch: "cond_hist self (arrays s py_te) py yrange (arrays s pyx)
          = continuous_hist self (arrays s py_te) (arrays s pyx)"
        using n l True by (simp add: cond_hist_def)
      show ?thesis
      proof (cases r2)
        case (Inl e)
        with res sp a1 pres show ?thesis
          by (auto simp: ch continuous_hist_def)
      next
        case (Inr p2)
        with sp a1 have "discretized_sequence ?yx1 NUMERICAL (ffactor self) (maxdev self) False
            = Inr (arrays s2 p2)" by simp
        with res Inr pres show ?thesis
          unfolding ch continuous_hist_def ay
          by (auto simp: Let_def split: sum.splits)
      qed
    qed
  qed
qed

lemma cond_dists_st_spec:
  assumes "cond_dists_st self s pxd py_te py yrange cx = (r, s')" "pxd < fresh s" "py_te < fresh s"
  shows "preserved s s'
       \<and> r = cond_dists self (arrays s pxd) (arrays s py_te) py yrange cx"
  using assms
proof (induction cx arbitrary: s r s')
  case Nil
  then show ?case by simp
next
  case (Cons p cx)
  obtain a c where p: "p = (a, c)" by (cases p)
  show ?case
  proof (cases "int c > minc self")
    case False
    with Cons.prems p have "cond_dists_st self s pxd py_te py yrange cx = (r, s')" by simp
    from Cons.IH[OF this Cons.prems(2,3)] False p show ?thesis by simp
  next
    case True
    let ?yx = "select_rows (arrays s pxd) a (arrays s py_te)"
    obtain pyx s1 where al: "alloc s ?yx = (pyx, s1)" by (cases "alloc s ?yx")
    note a = alloc_preserved[OF al]
    then have p1: "preserved s s1" by blast
    obtain rh s2 where h: "cond_hist_st self s1 py_te py yrange pyx = (rh, s2)"
      by (cases "cond_hist_st self s1 py_te py yrange pyx")
    from a have lt: "pyx < fresh s1" by blast
    note sp = cond_hist_st_spec[OF h preserved_less[OF p1 Cons.prems(3)] lt]
    have ay: "arrays s1 py_te = arrays s py_te" by (rule preserved_read[OF p1 Cons.prems(3)])
    from a have ayx: "arrays s1 pyx = ?yx" by blast
    from sp have rh: "cond_hist self (arrays s py_te) py yrange ?yx = rh"
      and p2: "preserved s1 s2" unfolding ay ayx by simp_all
    from p1 p2 have p02: "preserved s s2" by (rule preserved_trans)
    have step: "(r, s') = (case rh of
          Inl e \<Rightarrow> (Inl e, s2)
        | Inr pyxa \<Rightarrow>
            if \<not> feq (np_sum pyxa) (Fin (real c)) then (Inl AssertionError, s2)
            else (case cond_dists_st self s2 pxd py_te py yrange cx of
                    (Inl e, s3) \<Rightarrow> (Inl e, s3)
                  | (Inr rows, s3) \<Rightarrow> (Inr (normalize pyxa # rows), s3)))"
      using Cons.prems(1) p True al h by simp
    have pure: "cond_dists self (arrays s pxd) (arrays s py_te) py yrange (p # cx) = (case rh of
          Inl e \<Rightarrow> Inl e
        | Inr pyxa \<Rightarrow>
            if \<not> feq (np_sum pyxa) (Fin (real c)) then Inl AssertionError
            else (case cond_dists self (arrays s pxd) (arrays s py_te) py yrange cx of
                    Inl e \<Rightarrow> Inl e
                  | Inr rows \<Rightarrow> Inr (normalize pyxa # rows)))"
      using p True rh by simp
    show ?thesis
    proof (cases rh)
      case (Inl e)
      with step pure p02 show ?thesis by simp
    next
      case (Inr pyxa)
      show ?thesis
      proof (cases "feq (np_sum pyxa) (Fin (real c))")
        case False
        with step pure p02 Inr show ?thesis by simp
      next
        case eq: True
        obtain r3 s3 where t: "cond_dists_st self s2 pxd py_te py yrange cx = (r3, s3)"
          by (cases "cond_dists_st self s2 pxd py_te py yrange cx")
        note ih = Cons.IH[OF t preserved_less[OF p02 Cons.prems(2)]
            preserved_less[OF p02 Cons.prems(3)]]
        have "arrays s2 pxd = arrays s pxd" "arrays s2 py_te = arrays s py_te"
          using preserved_read[OF p02] Cons.prems(2,3) by simp_all
        with ih have r3: "cond_dists self (arrays s pxd) (arrays s py_te) py yrange cx = r3"
          and p3: "preserved s2 s3" by simp_all
        from p02 p3 have p03: "preserved s s3" by (rule preserved_trans)
        from step Inr eq t have "(r, s') = (case r3 of Inl e \<Rightarrow> (Inl e, s3)
              | Inr rows \<Rightarrow> (Inr (normalize pyxa # rows), s3))"
          by (simp split: sum.splits)
        with pure r3 Inr eq p03 show ?thesis
          by (cases r3) simp_all
      qed
    qed
  qed
qed

lemma cds_score_st_spec:
  assumes "cds_score_st self s px py = (r, s')" "px < fresh s" "py < fresh s"
  shows "preserved s s' \<and> r = cds_score self (arrays s px) (arrays s py)"
proof -
  obtain rd s1 where d: "discretized_sequences_st s px py (ffactor self) (maxdev self) = (rd, s1)"
    by (cases "discretized_sequences_st s px py (ffactor self) (maxdev self)")
  note sp = discretized_sequences_st_spec[OF d assms(2,3)]
  then have p1: "preserved s s1" by blast
  show ?thesis
  proof (cases rd)
    case (Inl e)
    with sp have "discretized_sequences (arrays s px) (arrays s py) (ffactor self) (maxdev self)
        = Inl e" by simp
    then have "cds_score self (arrays s px) (arrays s py) = Inl e"
      by (simp add: cds_score_def)
    moreover from assms(1) d Inl have "(r, s') = (Inl e, s1)"
      by (simp add: cds_score_st_def)
    ultimately show ?thesis using p1 by simp
  next
    case (Inr pp)
    obtain pxd pyd where pp: "pp = (pxd, pyd)" by (cases pp)
    from sp Inr pp have lt: "pxd < fresh s1" "pyd < fresh s1"
      and pure: "discretized_sequences (arrays s px) (arrays s py) (ffactor self) (maxdev self)
          = Inr (arrays s1 pxd, arrays s1 pyd)" by simp_all
    let ?cy = "Counter (arrays s1 pyd)"
    let ?yr = "py_sorted (map fst ?cy)"
    let ?py = "marginal ?cy ?yr"
    obtain rc s2 where c: "cond_dists_st self s1 pxd py ?py ?yr (Counter (arrays s1 pxd)) = (rc, s2)"
      by (cases "cond_dists_st self s1 pxd py ?py ?yr (Counter (arrays s1 pxd))")
    note spc = cond_dists_st_spec[OF c lt(1) preserved_less[OF p1 assms(3)]]
    have ay: "arrays s1 py = arrays s py" by (rule preserved_read[OF p1 assms(3)])
    from spc have rc: "cond_dists self (arrays s1 pxd) (arrays s py) ?py ?yr
        (Counter (arrays s1 pxd)) = rc" and p2: "preserved s1 s2"
      unfolding ay by simp_all
    from p1 p2 have p02: "preserved s s2" by (rule preserved_trans)
    have "cds_score_st self s px py = (case rc of Inl e \<Rightarrow> (Inl e, s2)
        | Inr pyx \<Rightarrow> (if length pyx = 0 then Inr (Fin 0)
                        else Inr (np_std (concat (centered pyx))), s2))"
      by (cases rc) (simp_all add: cds_score_st_def Let_def d Inr pp c)
    with assms(1) have res: "(r, s') = (case rc of Inl e \<Rightarrow> (Inl e, s2)
        | Inr pyx \<Rightarrow> (if length pyx = 0 then Inr (Fin 0)
                        else Inr (np_std (concat (centered pyx))), s2))"
      by simp
    have "cds_score self (arrays s px) (arrays s py) = (case rc of Inl e \<Rightarrow> Inl e
        | Inr pyx \<Rightarrow> if length pyx = 0 then Inr (Fin 0)
                        else Inr (np_std (concat (centered pyx))))"
      unfolding cds_score_loop[OF pure] rc ..
    with res p02 show ?thesis by (cases rc) simp_all
  qed
qed

lemma predict_proba_st_spec:
  assumes "predict_proba_st self s pa pb = (r, s')" "pa < fresh s" "pb < fresh s"
  shows "preserved s s' \<and> r = predict_proba self (arrays s pa) (arrays s pb)"
proof -
  obtain r1 s1 where c1: "cds_score_st self s pb pa = (r1, s1)"
    by (cases "cds_score_st self s pb pa")
  from cds_score_st_spec[OF c1 assms(3,2)]
  have p1: "preserved s s1" and v1: "cds_score self (arrays s pb) (arrays s pa) = r1"
    by simp_all
  obtain r2 s2 where c2: "cds_score_st self s1 pa pb = (r2, s2)"
    by (cases "cds_score_st self s1 pa pb")
  from cds_score_st_spec[OF c2 preserved_less[OF p1 assms(2)] preserved_less[OF p1 assms(3)]]
  have p2: "preserved s1 s2" and v2': "cds_score self (arrays s1 pa) (arrays s1 pb) = r2"
    by simp_all
  from v2' preserved_read[OF p1] assms(2,3)
  have v2: "cds_score self (arrays s pa) (arrays s pb) = r2" by simp
  from p1 p2 have p02: "preserved s s2" by (rule preserved_trans)
  have step: "(r, s') = (case r1 of
        Inl e \<Rightarrow> (Inl e, s1)
      | Inr a \<Rightarrow> (case r2 of Inl e \<Rightarrow> (Inl e, s2) | Inr b \<Rightarrow> (Inr (fsub a b), s2)))"
  proof -
    have "predict_proba_st self s pa pb = (case r1 of
        Inl e \<Rightarrow> (Inl e, s1)
      | Inr a \<Rightarrow> (case r2 of Inl e \<Rightarrow> (Inl e, s2) | Inr b \<Rightarrow> (Inr (fsub a b), s2)))"
      by (cases r1; cases r2) (simp_all add: predict_proba_st_def c1 c2)
    with assms(1) show ?thesis by simp
  qed
  have pure: "predict_proba self (arrays s pa) (arrays s pb) = (case r1 of
        Inl e \<Rightarrow> Inl e
      | Inr a \<Rightarrow> (case r2 of Inl e \<Rightarrow> Inl e | Inr b \<Rightarrow> Inr (fsub a b)))"
    unfolding predict_proba_def v1 v2 ..
  show ?thesis
  proof (cases r1)
    case (Inl e)
    with step pure p1 show ?thesis by simp
  next
    case (Inr a)
    with step pure p02 show ?thesis by (cases r2) simp_all
  qed
qed

lemma length_insort_elem [simp]: "length (insort_elem e ks) = Suc (length ks)"
  by (induction ks) auto

lemma length_py_sorted [simp]: "length (py_sorted xs) = length xs"
  by (induction xs) (auto simp: py_sorted_def)

lemma must_discretize_False:
  assumes "count_unique x = Inr n" "\<not> int n > 2 * ff * md + 1"
  shows "must_discretize x NUMERICAL ff md True = Inr False"
proof -
  from assms(1) have n: "n = length (py_set x)"
    by (auto simp: count_unique_def split: if_splits)
  from assms show ?thesis
    by (simp add: must_discretize_def len_discretized_values_def discretized_values_def
        numerical_def n)
qed

lemma py_set_replicate: "key_eq e e \<Longrightarrow> py_set (replicate (Suc k) e) = [e]"
  by (simp add: filter_empty_conv)







subsection \<open>Conservation of the counts and totality on finite inputs\<close>

lemma float_safe_finite: "float_safe ys \<Longrightarrow> \<forall>e\<in>set ys. \<exists>r. e = Num (Fin r)"
proof
  fix e assume "float_safe ys" "e \<in> set ys"
  then have "float_safe_value e" by (auto simp: float_safe_def list_all_iff)
  then show "\<exists>r. e = Num (Fin r)" by (cases e rule: float_safe_value.cases) auto
qed

lemma np_std_Fin_eq:
  assumes "rs \<noteq> []"
  shows "np_std (map Fin rs) =
     Fin (sqrt (sum_list (map (\<lambda>r. \<bar>r - sum_list rs / real (length rs)\<bar>
                                   * \<bar>r - sum_list rs / real (length rs)\<bar>) rs)
                / real (length rs)))"
proof -
  define m where "m = sum_list rs / real (length rs)"
  have sq: "map (\<lambda>v. fmul (fabs (fsub v (Fin m))) (fabs (fsub v (Fin m)))) (map Fin rs)
     = map Fin (map (\<lambda>r. \<bar>r - m\<bar> * \<bar>r - m\<bar>) rs)"
    by (simp add: fsub_def)
  have nn: "0 \<le> sum_list (map (\<lambda>r. \<bar>r - m\<bar> * \<bar>r - m\<bar>) rs)"
    by (rule sum_list_nonneg) auto
  have "np_std (map Fin rs)
     = fsqrt (Fin (sum_list (map (\<lambda>r. \<bar>r - m\<bar> * \<bar>r - m\<bar>) rs) / real (length rs)))"
    using assms unfolding np_std_def Let_def np_mean_Fin[OF assms] m_def[symmetric] sq
    by (subst np_mean_Fin) auto
  also have "\<dots> = Fin (sqrt (sum_list (map (\<lambda>r. \<bar>r - m\<bar> * \<bar>r - m\<bar>) rs) / real (length rs)))"
    using nn by (simp add: divide_nonneg_nonneg not_less)
  finally show ?thesis unfolding m_def .
qed

lemma np_std_zero_constant:
  assumes "rs \<noteq> []" "np_std (map Fin rs) = Fin 0"
  shows "\<forall>r\<in>set rs. r = sum_list rs / real (length rs)"
proof -
  define m where "m = sum_list rs / real (length rs)"
  define S where "S = sum_list (map (\<lambda>r. \<bar>r - m\<bar> * \<bar>r - m\<bar>) rs)"
  have nn: "\<forall>t\<in>set (map (\<lambda>r. \<bar>r - m\<bar> * \<bar>r - m\<bar>) rs). 0 \<le> t" by auto
  from assms(2) have "sqrt (S / real (length rs)) = 0"
    unfolding np_std_Fin_eq[OF assms(1)] S_def m_def by simp
  with assms(1) have "S = 0" by simp
  moreover have "(S = 0) = (\<forall>t\<in>set (map (\<lambda>r. \<bar>r - m\<bar> * \<bar>r - m\<bar>) rs). t = 0)"
    unfolding S_def by (rule sum_list_nonneg_eq_0_iff) (use nn in blast)
  ultimately have "\<forall>t\<in>set (map (\<lambda>r. \<bar>r - m\<bar> * \<bar>r - m\<bar>) rs). t = 0"
    by blast
  then show ?thesis unfolding m_def[symmetric] by auto
qed

lemma finite_elems_map:
  "\<forall>e\<in>set y. \<exists>r. e = Num (Fin r) \<Longrightarrow> \<exists>rs. y = map (\<lambda>r. Num (Fin r)) rs"
proof (induction y)
  case Nil
  then show ?case by simp
next
  case (Cons e y)
  then obtain rs r where "y = map (\<lambda>r. Num (Fin r)) rs" "e = Num (Fin r)" by auto
  then have "e # y = map (\<lambda>r. Num (Fin r)) (r # rs)" by simp
  then show ?case by (rule exI)
qed

lemma floats_map_Num_Fin: "floats (map (\<lambda>r. Num (Fin r)) rs) = map Fin rs"
  using floats_map_Num[of "map Fin rs"] by (simp add: comp_def)

lemma constant_count_unique:
  assumes "x \<noteq> []" "\<forall>e\<in>set x. e = Num (Fin m)"
  shows "count_unique x = Inr 1"
proof -
  from assms(2) have r: "replicate (length x) (Num (Fin m)) = x"
    by (rule replicate_length_same)
  from assms(1) obtain j where j: "length x = Suc j" by (cases x) auto
  have "py_set (replicate (Suc j) (Num (Fin m))) = [Num (Fin m)]"
    by (rule py_set_replicate) (simp add: feq_def)
  with r j have "py_set x = [Num (Fin m)]" by simp
  moreover from assms(2) have "Unhashable \<notin> set x" by auto
  ultimately show ?thesis by (simp add: count_unique_def)
qed

lemma std_nonzero:
  assumes "\<forall>e\<in>set y. \<exists>r. e = Num (Fin r)" "count_unique y = Inr n" "1 < n"
  shows "np_std (floats y) \<noteq> Fin 0"
proof
  assume z: "np_std (floats y) = Fin 0"
  from finite_elems_map[OF assms(1)] obtain rs where y: "y = map (\<lambda>r. Num (Fin r)) rs" by blast
  have ne: "rs \<noteq> []" using assms(2,3) y by (auto simp: count_unique_def split: if_splits)
  from z have "np_std (map Fin rs) = Fin 0" unfolding y floats_map_Num_Fin .
  from np_std_zero_constant[OF ne this]
  have "\<forall>e\<in>set y. e = Num (Fin (sum_list rs / real (length rs)))"
    unfolding y by auto
  moreover have "y \<noteq> []" using ne y by simp
  ultimately have "count_unique y = Inr 1" by (rule constant_count_unique[rotated])
  with assms(2,3) show False by simp
qed

lemma sum_list_insort_elem:
  "sum_list (map f (insort_elem e ks)) = f e + (sum_list (map f ks) :: nat)"
  by (induction ks) auto

lemma sum_list_py_sorted: "sum_list (map f (py_sorted xs)) = (sum_list (map f xs) :: nat)"
  by (induction xs) (auto simp: py_sorted_def sum_list_insort_elem)

lemma set_insort_elem: "set (insort_elem e ks) = insert e (set ks)"
  by (induction ks) auto

lemma set_py_sorted: "set (py_sorted xs) = set xs"
  by (induction xs) (auto simp: py_sorted_def set_insort_elem)

lemma sum_counts_keys:
  assumes "\<forall>e\<in>set yx. \<exists>d\<in>set yd. key_eq d e"
  shows "sum_list (map (\<lambda>k. length (filter (\<lambda>e. key_eq e k) yx)) (py_set yd)) = length yx"
  using assms
proof (induction yd arbitrary: yx rule: py_set.induct)
  case 1
  then show ?case by (cases yx) auto
next
  case (2 d ds)
  let ?ds = "filter (\<lambda>k. \<not> key_eq d k) ds"
  let ?yx = "filter (\<lambda>e. \<not> key_eq e d) yx"
  have cov: "\<forall>e\<in>set ?yx. \<exists>d'\<in>set ?ds. key_eq d' e"
  proof
    fix e assume e: "e \<in> set ?yx"
    then have ey: "e \<in> set yx" and ne: "\<not> key_eq e d" by auto
    from "2.prems" ey obtain d0 where d0: "d0 \<in> set (d # ds)" "key_eq d0 e" by blast
    from d0(2) ne have "d0 \<noteq> d" by (auto simp: key_eq_sym)
    moreover have "\<not> key_eq d d0"
    proof
      assume "key_eq d d0"
      from key_eq_trans[OF this d0(2)] ne show False by (simp add: key_eq_sym)
    qed
    ultimately have "d0 \<in> set ?ds" using d0(1) by simp
    with d0(2) show "\<exists>d'\<in>set ?ds. key_eq d' e" by blast
  qed
  have same: "length (filter (\<lambda>e. key_eq e k) yx) = length (filter (\<lambda>e. key_eq e k) ?yx)"
    if "k \<in> set (py_set ?ds)" for k
  proof -
    from that py_set_subset have "k \<in> set ?ds" by blast
    then have nk: "\<not> key_eq d k" by simp
    have "filter (\<lambda>e. key_eq e k) ?yx = filter (\<lambda>e. key_eq e k) yx"
      unfolding filter_filter
      by (rule filter_cong) (use nk key_eq_trans key_eq_sym in blast)+
    then show ?thesis by simp
  qed
  have "sum_list (map (\<lambda>k. length (filter (\<lambda>e. key_eq e k) yx)) (py_set ?ds))
      = sum_list (map (\<lambda>k. length (filter (\<lambda>e. key_eq e k) ?yx)) (py_set ?ds))"
    by (rule arg_cong[where f = sum_list], rule map_cong) (simp_all add: same)
  also have "\<dots> = length ?yx" by (rule "2.IH"[OF cov])
  finally have "sum_list (map (\<lambda>k. length (filter (\<lambda>e. key_eq e k) yx)) (py_set (d # ds)))
      = length (filter (\<lambda>e. key_eq e d) yx) + length ?yx" by simp
  then show ?case by (simp add: sum_length_filter_compl)
qed

lemma fadd_zero_left: "fadd (Fin 0) v = v"
  by (cases v) auto

lemma np_sum_zeros_left: "np_sum (replicate k (Fin 0) @ xs) = np_sum xs"
  by (induction k) (auto simp: np_sum_def fadd_zero_left)

lemma np_sum_zeros_right: "np_sum (xs @ replicate k (Fin 0)) = np_sum xs"
proof -
  have "foldr fadd (replicate k (Fin 0)) (Fin 0) = Fin 0"
    by (induction k) auto
  then show ?thesis by (simp add: np_sum_def)
qed

lemma np_sum_repad: "np_sum (repad ny imax pyxa) = np_sum pyxa"
proof -
  have "np_sum (repad ny imax pyxa) = np_sum (pyxa @ replicate imax (Fin 0))"
    unfolding repad_def by (rule np_sum_zeros_left)
  then show ?thesis by (simp add: np_sum_zeros_right)
qed

lemma aligned_hist_sum:
  assumes "yrange \<noteq> []"
  shows "\<exists>h. aligned_hist (map Fin ps) yrange yx = Inr h
           \<and> np_sum h = Fin (real (sum_list (map (counter_get (Counter yx)) yrange)))"
proof -
  define ny where "ny = length yrange"
  define cs where "cs = map (counter_get (Counter yx)) yrange"
  define qs where "qs = replicate (ny - 1) 0 @ map real cs @ replicate (ny - 1) 0"
  define rs where "rs = map (\<lambda>i. sum_list (map (\<lambda>p. fst p * snd p) (zip ps (take ny (drop i qs)))))
         [0..<2 * ny - 1]"
  have pq: "pad_hist ny (float_counts cs) = map Fin qs"
    unfolding float_counts_map pad_hist_Fin qs_def ..
  have xr: "xcorr (map Fin ps) (pad_hist ny (float_counts cs)) ny = map Fin rs"
    unfolding pq xcorr_Fin rs_def ..
  from assms have "0 < ny" by (simp add: ny_def)
  then have "rs \<noteq> []" by (simp add: rs_def)
  from first_max_finite[OF this] obtain imax where im: "first_max (map Fin rs) = Inr imax"
    by blast
  have "aligned_hist (map Fin ps) yrange yx = Inr (repad ny imax (float_counts cs))"
    using im by (simp add: aligned_hist_def Let_def xr ny_def[symmetric] cs_def[symmetric])
  moreover have "np_sum (repad ny imax (float_counts cs)) = Fin (real (sum_list cs))"
    unfolding np_sum_repad by (rule float_counts_sum)
  ultimately show ?thesis unfolding cs_def by simp
qed

lemma marginal_finite:
  assumes "\<forall>k\<in>set yrange. 0 < own_count cy k"
  shows "\<exists>ps. marginal cy yrange = map Fin ps"
proof (cases "yrange = []")
  case True
  then have "marginal cy yrange = map Fin []"
    by (simp add: marginal_def normalize_def float_counts_def)
  then show ?thesis by (rule exI)
next
  case False
  define cs where "cs = map (own_count cy) yrange"
  from False obtain k ks where yr: "yrange = k # ks" by (cases yrange) auto
  with assms have "0 < own_count cy k" by simp
  then have pos: "0 < sum_list cs" by (simp add: cs_def yr)
  from pos have nz: "real (sum_list cs) \<noteq> 0" by (simp del: sum_list_eq_0_iff)
  have "fdiv (Fin (real c)) (Fin (real (sum_list cs))) = Fin (real c / real (sum_list cs))" for c
    using nz by (simp del: of_nat_eq_0_iff sum_list_eq_0_iff)
  then have "marginal cy yrange = map Fin (map (\<lambda>c. real c / real (sum_list cs)) cs)"
    unfolding marginal_def normalize_def cs_def[symmetric] float_counts_sum
    by (simp add: float_counts_def del: of_nat_eq_0_iff sum_list_eq_0_iff)
  then show ?thesis by (rule exI)
qed

lemma own_count_pos:
  assumes "k \<in> set yd"
  shows "0 < own_count (Counter yd) k"
proof (cases "key_eq k k")
  case True
  with assms have "filter (\<lambda>e. key_eq e k) yd \<noteq> []" by (auto simp: filter_empty_conv)
  with True show ?thesis by (simp add: own_count_def counter_get_Counter)
next
  case False
  then show ?thesis by (simp add: own_count_def)
qed

lemma low_card_eq:
  assumes "count_unique y = Inr n" "\<not> int n > 2 * ffactor self * maxdev self + 1"
  shows "cond_hist self y py yrange yx = aligned_hist py yrange yx"
proof -
  from assms(1) have n: "n = length (py_set y)"
    by (auto simp: count_unique_def split: if_splits)
  from assms show ?thesis
    by (simp add: cond_hist_def len_discretized_values_def discretized_values_def
        numerical_def n)
qed

lemma low_card_unchanged:
  assumes "count_unique y = Inr n" "\<not> int n > 2 * ff * md + 1"
  shows "discretized_sequence y NUMERICAL ff md True = Inr y"
  by (simp add: discretized_sequence_def must_discretize_False[OF assms])

lemma low_card_total:
  assumes fy: "\<forall>e\<in>set y_te. \<exists>r. e = Num (Fin r)"
    and len: "length xd = length y_te"
    and cu: "count_unique y_te = Inr n" "\<not> int n > 2 * ffactor self * maxdev self + 1"
    and mem: "(a, c) \<in> set (Counter xd)" and c2: "2 \<le> c"
  shows "\<exists>h. bin_hist self xd y_te y_te a = Inr h \<and> np_sum h = Fin (real c)"
proof -
  let ?yr = "py_sorted (map fst (Counter y_te))"
  let ?yx = "select_rows xd a y_te"
  from Counter_count[OF mem] c2 have c: "c = length (filter (\<lambda>e. key_eq e a) xd)"
    by (auto split: if_splits)
  with length_select_rows[OF len] have ly: "length ?yx = c" by simp
  from c c2 have "xd \<noteq> []" by auto
  with len have "y_te \<noteq> []" by auto
  then have "py_set y_te \<noteq> []" by (cases y_te) auto
  then have yr: "?yr \<noteq> []"
    unfolding Counter_keys by (metis length_py_sorted length_0_conv)
  have "\<forall>k\<in>set ?yr. 0 < own_count (Counter y_te) k"
    unfolding Counter_keys set_py_sorted using own_count_pos py_set_subset by blast
  from marginal_finite[OF this] obtain ps where
    ps: "marginal (Counter y_te) ?yr = map Fin ps" by blast
  have cov: "\<forall>e\<in>set ?yx. \<exists>d\<in>set y_te. key_eq d e"
  proof
    fix e assume "e \<in> set ?yx"
    with set_select_rows have e: "e \<in> set y_te" by blast
    with fy obtain r where "e = Num (Fin r)" by blast
    then have "key_eq e e" by (simp add: feq_def)
    with e show "\<exists>d\<in>set y_te. key_eq d e" by blast
  qed
  have "sum_list (map (counter_get (Counter ?yx)) ?yr)
      = sum_list (map (counter_get (Counter ?yx)) (py_set y_te))"
    unfolding Counter_keys by (rule sum_list_py_sorted)
  also have "\<dots> = sum_list (map (\<lambda>k. length (filter (\<lambda>e. key_eq e k) ?yx)) (py_set y_te))"
    by (rule arg_cong[where f = sum_list], rule map_cong) (simp_all add: counter_get_Counter)
  also have "\<dots> = length ?yx" by (rule sum_counts_keys[OF cov])
  finally have total: "sum_list (map (counter_get (Counter ?yx)) ?yr) = c"
    using ly by simp
  from aligned_hist_sum[OF yr, of ps ?yx] obtain h where
    h: "aligned_hist (map Fin ps) ?yr ?yx = Inr h"
      "np_sum h = Fin (real (sum_list (map (counter_get (Counter ?yx)) ?yr)))" by blast
  have "bin_hist self xd y_te y_te a = Inr h"
    unfolding bin_hist_def Let_def low_card_eq[OF cu] ps by (rule h(1))
  with h(2) total show ?thesis by simp
qed

lemma bin_hist_total:
  assumes cfg: "1 \<le> ffactor self" "1 \<le> maxdev self" "1 \<le> minc self"
    and ux: "Unhashable \<notin> set x_te"
    and fy: "\<forall>e\<in>set y_te. \<exists>r. e = Num (Fin r)"
    and len: "length x_te = length y_te"
    and ds: "discretized_sequences x_te y_te (ffactor self) (maxdev self) = Inr (xd, yd)"
    and mem: "(a, c) \<in> set (Counter xd)" and q: "minc self < int c"
  shows "\<exists>h. bin_hist self xd yd y_te a = Inr h \<and> np_sum h = Fin (real c)"
proof -
  from cfg(1,2) have nn: "0 \<le> ffactor self * maxdev self" by simp
  from fy have uy: "Unhashable \<notin> set y_te" by auto
  from discretized_sequences_ok[OF ux uy, of "ffactor self" "maxdev self"] ds
  have lxd: "length xd = length y_te" using len by auto
  from q cfg(3) have c2: "2 \<le> c" by simp
  from Counter_count[OF mem] c2 have c: "c = length (filter (\<lambda>e. key_eq e a) xd)"
    by (auto split: if_splits)
  with length_select_rows[OF lxd] have ly: "length (select_rows xd a y_te) = c" by simp
  with c2 have ne: "select_rows xd a y_te \<noteq> []" by auto
  define n where "n = length (py_set y_te)"
  have cu: "count_unique y_te = Inr n" by (simp add: n_def count_unique_ok[OF uy])
  show ?thesis
  proof (cases "int n > 2 * ffactor self * maxdev self + 1")
    case True
    have "2 * ffactor self * maxdev self = 2 * (ffactor self * maxdev self)" by simp
    with True nn have "1 < n" by linarith
    from std_nonzero[OF fy cu this] have sd: "np_std (floats y_te) \<noteq> Fin 0" .
    from continuous_hist_sum(1)[OF nn fy set_select_rows ne sd cu True] ly
    show ?thesis
      by (simp add: bin_hist_def Let_def cond_hist_continuous[OF cu True nn])
  next
    case False
    from ds have "discretized_sequence y_te NUMERICAL (ffactor self) (maxdev self) True = Inr yd"
      by (auto simp: discretized_sequences_def split: sum.splits)
    with low_card_unchanged[OF cu False] have "yd = y_te" by simp
    with low_card_total[OF fy lxd cu False mem c2] show ?thesis by simp
  qed
qed





lemma ex_c_nan_score: "cds_score ex_cfg ex_c ex_nan = Inl AssertionError"
  unfolding cds_score_loop[OF ex_c_nan_discretized]
  by (simp add: eval_defs ex_c_def ex_nan_def ex_cfg_def upt_rec numeral_2_eq_2)

lemma ex_tails_seqs0:
  "discretized_sequences ex_tails ex_tails (ffactor ex_cfg0) (maxdev ex_cfg0) =
     Inr (map Num [Fin (- 1), Fin (- 1), NaN, NaN, NaN, NaN, Fin 1, Fin 1],
          map Num [Fin (- 1), Fin (- 1), NaN, NaN, NaN, NaN, Fin 1, Fin 1])"
  by (simp add: discretized_sequences_def ex_cfg0_def ex_tails_discretized)

lemma ex_tails_score0: "cds_score ex_cfg0 ex_tails ex_tails = Inl AssertionError"
  unfolding cds_score_loop[OF ex_tails_seqs0]
  by (simp add: eval_defs ex_tails_def ex_cfg0_def sqrt_25 upto_unit upt_rec)

lemma float_safe_ex_w: "float_safe ex_w"
  by (simp add: float_safe_def ex_w_def)



lemma ex_vw_discretized:
  "discretized_sequences ex_v ex_w (ffactor ex_cfg) (maxdev ex_cfg)
     = Inr (ex_v, map Num [Fin (- 1), Fin (- 1), Fin (- 1), Fin 1, Fin 1])"
proof -
  have "count_unique ex_v = Inr 2" by (simp add: ex_v_def count_unique_def feq_def)
  then have "discretized_sequence ex_v NUMERICAL 1 1 True = Inr ex_v"
    by (rule low_card_unchanged) simp
  then show ?thesis
    by (simp add: discretized_sequences_def ex_cfg_def ex_w_discretized)
qed

lemma ex_v_counter: "Counter ex_v = [(Num (Fin 0), 3), (Num (Fin 1), 2)]"
  by (simp add: ex_v_def feq_def)

lemma ex_x_counter: "Counter ex_x = [(Num (Fin 0), 2), (Num (Fin 1), 2)]"
  by (simp add: ex_x_def feq_def)


section \<open>The claims\<close>

text \<open>
  C1. The comparator returns \<open>cds(b, a) - cds(a, b)\<close>: it returns a score exactly when
  both directional statistics return, and the score is their difference. Swapping the
  operands negates the score, \<open>score(a, b) == -score(b, a)\<close> under Python's equality
  of floats, and a call that raises still raises after the swap.
\<close>

theorem predict_proba_antisymmetric:
  "(predict_proba self a b = Inr s \<longleftrightarrow>
      (\<exists>s1 s2. cds_score self b a = Inr s1 \<and> cds_score self a b = Inr s2 \<and> s = fsub s1 s2))
   \<and> (predict_proba self a b = Inr s \<longrightarrow>
        (\<exists>t. predict_proba self b a = Inr t \<and> feq s (fneg t)))
   \<and> (predict_proba self a b = Inl e \<longrightarrow> (\<exists>e'. predict_proba self b a = Inl e'))"
proof (intro conjI impI)
  show "predict_proba self a b = Inr s \<longleftrightarrow>
      (\<exists>s1 s2. cds_score self b a = Inr s1 \<and> cds_score self a b = Inr s2 \<and> s = fsub s1 s2)"
    by (auto simp: predict_proba_def split: sum.splits)
next
  assume "predict_proba self a b = Inr s"
  then obtain s1 s2 where s: "cds_score self b a = Inr s1" "cds_score self a b = Inr s2"
    "s = fsub s1 s2"
    by (auto simp: predict_proba_def split: sum.splits)
  from cds_score_value[OF s(1)] cds_score_value[OF s(2)] obtain r1 r2 where
    "s1 = Fin r1" "s2 = Fin r2" by blast
  with s show "\<exists>t. predict_proba self b a = Inr t \<and> feq s (fneg t)"
    by (simp add: predict_proba_def fsub_def feq_def)
next
  assume "predict_proba self a b = Inl e"
  then show "\<exists>e'. predict_proba self b a = Inl e'"
    by (auto simp: predict_proba_def split: sum.splits)
qed

theorem predict_proba_antisymmetric_witness:
  "predict_proba ex_cfg ex_x ex_y = Inr (Fin (- sqrt (1 / 32)))
   \<and> predict_proba ex_cfg ex_y ex_x = Inr (Fin (sqrt (1 / 32)))
   \<and> feq (Fin (- sqrt (1 / 32))) (fneg (Fin (sqrt (1 / 32))))
   \<and> predict_proba ex_cfg [Unhashable] ex_y = Inl TypeError
   \<and> (\<exists>e'. predict_proba ex_cfg ex_y [Unhashable] = Inl e')"
proof -
  have v: "predict_proba ex_cfg ex_x ex_y = Inr (Fin (- sqrt (1 / 32)))"
    by (simp add: predict_proba_def ex_cds_xy ex_cds_yx fsub_def)
  have e: "predict_proba ex_cfg [Unhashable] ex_y = Inl TypeError"
    by (simp add: predict_proba_def cds_score_unhashable)
  from predict_proba_antisymmetric[of ex_cfg ex_x ex_y "Fin (- sqrt (1 / 32))"] v
  have "\<exists>t. predict_proba ex_cfg ex_y ex_x = Inr t \<and> feq (Fin (- sqrt (1 / 32))) (fneg t)"
    by blast
  then have "predict_proba ex_cfg ex_y ex_x = Inr (Fin (sqrt (1 / 32)))
      \<and> feq (Fin (- sqrt (1 / 32))) (fneg (Fin (sqrt (1 / 32))))"
    by (auto simp: feq_def) (metis fneg.simps(1) fneg.elims fval.distinct(1,3,5) fval.inject minus_minus)+
  moreover from predict_proba_antisymmetric[of ex_cfg "[Unhashable]" ex_y undefined TypeError] e
  have "\<exists>e'. predict_proba ex_cfg ex_y [Unhashable] = Inl e'"
    by blast
  ultimately show ?thesis using v e by simp
qed

text \<open>
  C4. When \<open>minc\<close> is at least the number of samples, no cause-bin has a count greater
  than \<open>minc\<close>, the loop collects no conditional distribution, nothing is raised, and
  \<open>cds_score\<close> returns exactly 0.
\<close>

theorem cds_score_degenerate_threshold:
  assumes "Unhashable \<notin> set x_te" "Unhashable \<notin> set y_te" "int (length x_te) \<le> minc self"
  shows "\<exists>xd yd. discretized_sequences x_te y_te (ffactor self) (maxdev self) = Inr (xd, yd)
           \<and> (\<forall>(a, c)\<in>set (Counter xd). \<not> minc self < int c)
           \<and> cond_dists self xd y_te (marginal (Counter yd) (py_sorted (map fst (Counter yd))))
                (py_sorted (map fst (Counter yd))) (Counter xd) = Inr []
           \<and> cds_score self x_te y_te = Inr (Fin 0)"
proof -
  from discretized_sequences_ok[OF assms(1,2)] obtain xd yd where
    ds: "discretized_sequences x_te y_te (ffactor self) (maxdev self) = Inr (xd, yd)"
    and len: "length xd = length x_te" by blast
  have none: "\<forall>(a, c)\<in>set (Counter xd). \<not> minc self < int c"
  proof (clarify)
    fix a c assume "(a, c) \<in> set (Counter xd)" "minc self < int c"
    from Counter_count_le[OF this(1)] len assms(3) this(2) show False by simp
  qed
  from cond_dists_none[OF none] ds none show ?thesis
    by (simp add: cds_score_def Let_def)
qed

theorem cds_score_degenerate_threshold_witness:
  "Unhashable \<notin> set ex_x \<and> Unhashable \<notin> set ex_y \<and> int (length ex_x) \<le> minc cds_default
   \<and> Counter ex_x \<noteq> []
   \<and> cds_score cds_default ex_x ex_y = Inr (Fin 0)"
proof -
  have h: "Unhashable \<notin> set ex_x" "Unhashable \<notin> set ex_y" "int (length ex_x) \<le> minc cds_default"
    by (simp_all add: ex_x_def ex_y_def cds_default_def)
  from cds_score_degenerate_threshold[OF h] have "cds_score cds_default ex_x ex_y = Inr (Fin 0)"
    by blast
  with h show ?thesis by (simp add: ex_x_def)
qed

text \<open>
  C7. Whenever \<open>cds_score\<close> returns, its value is a finite number that is greater than
  or equal to 0.
\<close>

theorem cds_score_nonneg:
  "cds_score self x_te y_te = Inr s \<Longrightarrow> \<exists>r. s = Fin r \<and> 0 \<le> r"
  using cds_score_value[of self x_te y_te s] by blast

theorem cds_score_nonneg_witness:
  "cds_score ex_cfg ex_x ex_y = Inr (Fin (sqrt (1 / 32)))
   \<and> (\<exists>r. Fin (sqrt (1 / 32)) = Fin r \<and> 0 \<le> r)"
  using cds_score_nonneg[OF ex_cds_xy] ex_cds_xy by simp

text \<open>
  C8. A sequence with an element that cannot be hashed makes \<open>count_unique\<close> raise
  Python's \<^verbatim>\<open>TypeError\<close>, and the error ends both \<open>cds_score\<close> and
  \<open>predict_proba\<close>: no value is computed from the element.
\<close>

theorem unhashable_raises:
  assumes "Unhashable \<in> set a \<or> Unhashable \<in> set b"
  shows "(Unhashable \<in> set a \<longrightarrow> count_unique a = Inl TypeError)
       \<and> (Unhashable \<in> set b \<longrightarrow> count_unique b = Inl TypeError)
       \<and> cds_score self a b = Inl TypeError
       \<and> predict_proba self a b = Inl TypeError"
proof -
  from assms have "Unhashable \<in> set b \<or> Unhashable \<in> set a" by blast
  then have "cds_score self b a = Inl TypeError" by (rule cds_score_unhashable)
  then show ?thesis
    using cds_score_unhashable[OF assms] by (simp add: predict_proba_def count_unique_err)
qed

theorem unhashable_raises_witness:
  "Unhashable \<in> set [Num (Fin 1), Unhashable]
   \<and> count_unique [Num (Fin 1), Unhashable] = Inl TypeError
   \<and> cds_score cds_default [Num (Fin 1), Unhashable] [Num (Fin 1), Num (Fin 2)] = Inl TypeError
   \<and> predict_proba cds_default [Num (Fin 1), Unhashable] [Num (Fin 1), Num (Fin 2)] = Inl TypeError"
  using unhashable_raises[of "[Num (Fin 1), Unhashable]" "[Num (Fin 1), Num (Fin 2)]" cds_default]
  by simp

text \<open>
  C2, as the claim states it, fails on the lengths: with \<open>ny = 2\<close> the padded array
  has 4 elements, not \<open>2 * ny - 1 = 3\<close>, and the aligned histogram has 4 elements,
  not \<open>ny = 2\<close>.
\<close>

theorem alignment_lengths_counterexample:
  "length (pad_hist 2 [Fin 1, Fin 1]) = 3 * 2 - 2
   \<and> length (pad_hist 2 [Fin 1, Fin 1]) \<noteq> 2 * 2 - 1
   \<and> aligned_hist [Fin (3 / 4), Fin (1 / 4)] [Num (Fin 0), Num (Fin 1)] [Num (Fin 0), Num (Fin 1)]
        = Inr [Fin 0, Fin 1, Fin 1, Fin 0]
   \<and> length [Fin 0, Fin 1, Fin 1, Fin 0] \<noteq> length [Num (Fin 0), Num (Fin 1)]"
  by (simp add: eval_defs upt_rec)

text \<open>
  C2, amended. For a histogram over \<open>ny \<ge> 1\<close> bins and a finite marginal: the padded
  array is the histogram between \<open>ny - 1\<close> zeros on each side and has length
  \<open>3 * ny - 2\<close>; there are \<open>2 * ny - 1\<close> scores, the score at offset \<open>i\<close> being the
  sum of the products of the marginal with the window of \<open>ny\<close> elements at \<open>i\<close>;
  the chosen offset has a score that no score exceeds and that every earlier score is
  below; and the aligned histogram is the histogram between \<open>2 * ny - 2 - imax\<close> zeros
  and \<open>imax\<close> zeros, of length \<open>3 * ny - 2\<close>.
\<close>

theorem alignment:
  assumes "yrange \<noteq> []" "py = map Fin ps" "ny = length yrange"
    "pyxa = float_counts (map (counter_get (Counter yx)) yrange)"
    "pyxax = pad_hist ny pyxa" "xc = xcorr py pyxax ny"
  shows "pyxax = replicate (ny - 1) (Fin 0) @ pyxa @ replicate (ny - 1) (Fin 0)
     \<and> length pyxax = 3 * ny - 2
     \<and> length xc = 2 * ny - 1
     \<and> (\<forall>i<2 * ny - 1.
           xc ! i = py_sum (map (\<lambda>p. fmul (fst p) (snd p)) (zip py (take ny (drop i pyxax)))))
     \<and> (\<exists>imax. first_max xc = Inr imax \<and> imax < 2 * ny - 1
           \<and> (\<forall>j<2 * ny - 1. \<not> fgt (xc ! j) (xc ! imax))
           \<and> (\<forall>j<imax. flt (xc ! j) (xc ! imax))
           \<and> aligned_hist py yrange yx = Inr (repad ny imax pyxa)
           \<and> repad ny imax pyxa
                = replicate (2 * ny - 2 - imax) (Fin 0) @ pyxa @ replicate imax (Fin 0)
           \<and> length (repad ny imax pyxa) = 3 * ny - 2)"
proof -
  from assms(1,3) have ny: "0 < ny" by simp
  have len: "length pyxa = ny" by (simp add: assms(3,4))
  define qs where "qs = replicate (ny - 1) 0 @ map real (map (counter_get (Counter yx)) yrange)
      @ replicate (ny - 1) 0"
  have pq: "pyxax = map Fin qs"
    unfolding assms(5) assms(4) float_counts_map pad_hist_Fin qs_def ..
  define rs where "rs = map (\<lambda>i. sum_list (map (\<lambda>p. fst p * snd p) (zip ps (take ny (drop i qs)))))
         [0..<2 * ny - 1]"
  have xr: "xc = map Fin rs"
    unfolding assms(6) assms(2) pq xcorr_Fin rs_def ..
  have lr: "length rs = 2 * ny - 1" by (simp add: rs_def)
  with ny have "rs \<noteq> []" by auto
  from first_max_finite[OF this] obtain imax where
    im: "first_max (map Fin rs) = Inr imax" "imax < length rs"
      "\<forall>j<length rs. rs ! j \<le> rs ! imax" "\<forall>j<imax. rs ! j < rs ! imax" by blast
  have a: "pyxax = replicate (ny - 1) (Fin 0) @ pyxa @ replicate (ny - 1) (Fin 0)"
    by (simp add: assms(5) pad_hist_def)
  have b: "length pyxax = 3 * ny - 2" using ny len unfolding a by simp
  have c: "length xc = 2 * ny - 1" by (simp add: assms(6))
  have d: "\<forall>i<2 * ny - 1.
           xc ! i = py_sum (map (\<lambda>p. fmul (fst p) (snd p)) (zip py (take ny (drop i pyxax))))"
    by (simp add: assms(6) xcorr_def)
  have e: "\<forall>j<2 * ny - 1. \<not> fgt (xc ! j) (xc ! imax)"
    using im(2,3) lr by (auto simp: xr fgt_def not_less)
  have f: "\<forall>j<imax. flt (xc ! j) (xc ! imax)"
    using im(2,4) lr by (auto simp: xr)
  have g: "aligned_hist py yrange yx = Inr (repad ny imax pyxa)"
    using im(1) by (simp add: aligned_hist_def Let_def xr[symmetric] assms(3,4,5,6))
  have h: "length (repad ny imax pyxa) = 3 * ny - 2"
    using im(2) lr ny len by (simp add: length_repad)
  have i: "repad ny imax pyxa
      = replicate (2 * ny - 2 - imax) (Fin 0) @ pyxa @ replicate imax (Fin 0)"
    by (simp add: repad_def)
  have fm: "first_max xc = Inr imax" using im(1) xr by simp
  have il: "imax < 2 * ny - 1" using im(2) lr by simp
  show ?thesis
    by (intro conjI exI[of _ imax]) (rule a b c d fm il e f g i h)+
qed

theorem alignment_witness:
  "[Num (Fin 0), Num (Fin 1)] \<noteq> []
   \<and> length (pad_hist 2 (float_counts (map (counter_get (Counter [Num (Fin 0), Num (Fin 1)]))
        [Num (Fin 0), Num (Fin 1)]))) = 4
   \<and> (\<exists>imax<3.
         aligned_hist [Fin (3 / 4), Fin (1 / 4)] [Num (Fin 0), Num (Fin 1)]
             [Num (Fin 0), Num (Fin 1)]
           = Inr (repad 2 imax (float_counts (map (counter_get (Counter [Num (Fin 0), Num (Fin 1)]))
                [Num (Fin 0), Num (Fin 1)])))
       \<and> length (repad 2 imax (float_counts (map (counter_get (Counter [Num (Fin 0), Num (Fin 1)]))
                [Num (Fin 0), Num (Fin 1)]))) = 4)"
proof -
  let ?r = "[Num (Fin 0), Num (Fin 1)]"
  let ?P = "float_counts (map (counter_get (Counter ?r)) ?r)"
  have h: "?r \<noteq> []" "[Fin (3 / 4), Fin (1 / 4)] = map Fin [3 / 4, 1 / 4]"
    "(2::nat) = length ?r"
    by simp_all
  from alignment[OF h refl refl refl, of ?r] obtain imax where
    pl: "length (pad_hist 2 ?P) = 3 * 2 - 2"
    and im: "imax < 2 * 2 - 1"
      "aligned_hist [Fin (3 / 4), Fin (1 / 4)] ?r ?r = Inr (repad 2 imax ?P)"
      "length (repad 2 imax ?P) = 3 * 2 - 2"
    by blast
  from im(1) have i3: "imax < 3" by simp
  from pl have p4: "length (pad_hist 2 ?P) = 4" by simp
  from im(3) have r4: "length (repad 2 imax ?P) = 4" by simp
  from h(1) p4 i3 im(2) r4 show ?thesis by blast
qed

text \<open>
  C5, as the claim states it, fails: \<open>ex_tails\<close> has five unique values, more than
  \<open>2 * 1 * 1 + 1\<close>, and four elements of its discretization are NaN, which lies in
  no interval.
\<close>

theorem discretized_range_counterexample:
  "count_unique ex_tails = Inr 5 \<and> int 5 > 2 * 1 * 1 + 1
   \<and> discretized_sequence ex_tails NUMERICAL 1 1 True =
       Inr (map Num [Fin (- 1), Fin (- 1), NaN, NaN, NaN, NaN, Fin 1, Fin 1])
   \<and> \<not> in_bin_range 1 1 NaN"
  using ex_tails_count ex_tails_discretized
  by (simp add: in_bin_range_def fle_def feq_def)

text \<open>
  C5, amended. For a sequence with more unique values than \<open>2 * ffactor * maxdev + 1\<close>
  (with \<open>ffactor \<ge> 1\<close> and \<open>maxdev \<ge> 1\<close>), every element of the discretized output
  is NaN or lies in the closed bin range; and when the sequence is finite and the
  standard deviation of the subset within \<open>maxdev\<close> deviations is a non-zero number,
  every element lies in the bin range.
\<close>

theorem discretized_range:
  assumes "1 \<le> ff" "1 \<le> md" "count_unique x = Inr n" "int n > 2 * ff * md + 1"
  shows "\<exists>xd. discretized_sequence x NUMERICAL ff md True = Inr xd \<and> length xd = length x
      \<and> (\<forall>e\<in>set xd. \<exists>v. e = Num v \<and> (v = NaN \<or> in_bin_range ff md v))
      \<and> ((\<forall>e\<in>set x. \<exists>r. e = Num (Fin r))
           \<and> (\<exists>s. np_std (within_maxdev (first_pass (floats x)) md) = Fin s \<and> s \<noteq> 0)
          \<longrightarrow> (\<forall>e\<in>set xd. \<exists>v. e = Num v \<and> in_bin_range ff md v))"
proof -
  from assms(1,2) have nn: "0 \<le> ff * md" by simp
  from assms(3) have nu: "Unhashable \<notin> set x"
    by (auto simp: count_unique_def split: if_splits)
  let ?xd = "map Num (round_clip (standardize (floats x) md) ff md)"
  have ds: "discretized_sequence x NUMERICAL ff md True = Inr ?xd"
    by (simp add: discretized_sequence_def must_discretize_True[OF assms(3,4) nn])
  have len: "length ?xd = length x" by (simp add: length_floats[OF nu])
  have a: "\<forall>e\<in>set ?xd. \<exists>v. e = Num v \<and> (v = NaN \<or> in_bin_range ff md v)"
    using round_clip_range[OF nn] by auto
  have b: "\<forall>e\<in>set ?xd. \<exists>v. e = Num v \<and> in_bin_range ff md v"
    if fin: "\<forall>e\<in>set x. \<exists>r. e = Num (Fin r)"
      and sd: "\<exists>s. np_std (within_maxdev (first_pass (floats x)) md) = Fin s \<and> s \<noteq> 0"
  proof -
    from sd obtain s where s: "np_std (within_maxdev (first_pass (floats x)) md) = Fin s" "s \<noteq> 0"
      by blast
    from standardize_finite[OF floats_finite[OF fin] s]
    have "\<forall>v\<in>set (standardize (floats x) md). is_finite v" .
    note rc = round_clip_finite[OF nn this]
    show ?thesis
    proof
      fix e assume "e \<in> set ?xd"
      then obtain v where v: "e = Num v" "v \<in> set (round_clip (standardize (floats x) md) ff md)"
        by auto
      from rc[OF v(2)] obtain k where k: "v = Fin (of_int k)" "- ff * md \<le> k" "k \<le> ff * md"
        by blast
      have "in_bin_range ff md (Fin (of_int k))"
        unfolding in_bin_range_Fin of_int_le_iff using k(2,3) by simp
      with v(1) k(1) show "\<exists>v. e = Num v \<and> in_bin_range ff md v" by simp
    qed
  qed
  from ds len a b show ?thesis by blast
qed

theorem discretized_range_witness:
  "(1::int) \<le> 1 \<and> count_unique ex_w = Inr 4 \<and> int 4 > 2 * 1 * 1 + 1
   \<and> ex_w = map (\<lambda>r. Num (Fin r)) [- 6, - 6, - 2, 0, 2]
   \<and> np_std (within_maxdev (first_pass (floats ex_w)) 1) = Fin (5 / 16)
   \<and> discretized_sequence ex_w NUMERICAL 1 1 True
        = Inr (map Num [Fin (- 1), Fin (- 1), Fin (- 1), Fin 1, Fin 1])
   \<and> in_bin_range 1 1 (Fin (- 1)) \<and> in_bin_range 1 1 (Fin 1)"
proof -
  have h: "(1::int) \<le> 1" "int 4 > 2 * 1 * 1 + 1" by simp_all
  have fin: "\<forall>e\<in>set ex_w. \<exists>r. e = Num (Fin r)" by (simp add: ex_w_def)
  from discretized_range[OF h(1) h(1) ex_w_count h(2)] fin ex_w_within_std ex_w_discretized
  have "\<forall>e\<in>set (map Num [Fin (- 1), Fin (- 1), Fin (- 1), Fin 1, Fin 1]).
         \<exists>v. e = Num v \<and> in_bin_range 1 1 v"
    by fastforce
  then have "in_bin_range 1 1 (Fin (- 1))" "in_bin_range 1 1 (Fin 1)" by auto
  with h ex_w_count ex_w_within_std ex_w_discretized show ?thesis
    by (simp add: ex_w_def)
qed

text \<open>
  C3, as the claim states it, fails on its first half: for \<open>x = [5, 5]\<close>,
  \<open>y = [nan, nan]\<close> and \<open>ffactor = maxdev = minc = 1\<close> the bin 5 holds two samples
  and qualifies, and its aligned histogram adds up to 0, not to 2. The second half holds
  there: the call raises \<^verbatim>\<open>AssertionError\<close>.
\<close>

theorem count_preserved_counterexample:
  "discretized_sequences ex_c ex_nan (ffactor ex_cfg) (maxdev ex_cfg) = Inr (ex_c, ex_nan)
   \<and> Counter ex_c = [(Num (Fin 5), 2)] \<and> minc ex_cfg < int 2
   \<and> bin_hist ex_cfg ex_c ex_nan ex_nan (Num (Fin 5)) = Inr [Fin 0, Fin 0, Fin 0, Fin 0]
   \<and> np_sum [Fin 0, Fin 0, Fin 0, Fin 0] = Fin 0
   \<and> \<not> feq (Fin 0) (Fin (real 2))
   \<and> cds_score ex_cfg ex_c ex_nan = Inl AssertionError"
  using ex_c_nan_discretized ex_c_counter ex_c_nan_hist ex_c_nan_score
  by (simp add: np_sum_def feq_def ex_cfg_def)

text \<open>
  C3, amended. For a cause sequence of numbers and a float-safe effect sequence of the
  same length, with \<open>ffactor\<close>, \<open>maxdev\<close> and \<open>minc\<close> at least 1, the histogram
  of every qualifying cause-bin, aligned or continuous, adds up to the bin's sample
  count. On every input: when \<open>cds_score\<close> returns, the histogram of every qualifying
  cause-bin added up to the bin's count; a qualifying bin whose histogram does not add up
  makes \<open>cds_score\<close> raise, and the error is \<^verbatim>\<open>AssertionError\<close> when every
  histogram could be computed: the mismatch is never tolerated or renormalized.
\<close>

theorem count_preserved_or_raises:
  assumes "discretized_sequences x_te y_te (ffactor self) (maxdev self) = Inr (xd, yd)"
  shows "(1 \<le> ffactor self \<and> 1 \<le> maxdev self \<and> 1 \<le> minc self
            \<and> Unhashable \<notin> set x_te \<and> float_safe y_te \<and> length x_te = length y_te \<longrightarrow>
           (\<forall>(a, c)\<in>set (Counter xd). minc self < int c \<longrightarrow>
              (\<exists>h. bin_hist self xd yd y_te a = Inr h \<and> feq (np_sum h) (Fin (real c)))))
       \<and> (cds_score self x_te y_te = Inr s \<longrightarrow>
           (\<forall>(a, c)\<in>set (Counter xd). minc self < int c \<longrightarrow>
              (\<exists>h. bin_hist self xd yd y_te a = Inr h \<and> feq (np_sum h) (Fin (real c)))))
       \<and> ((\<exists>(a, c)\<in>set (Counter xd). minc self < int c
              \<and> (\<exists>h. bin_hist self xd yd y_te a = Inr h \<and> \<not> feq (np_sum h) (Fin (real c))))
           \<longrightarrow> (\<exists>e. cds_score self x_te y_te = Inl e))
       \<and> ((\<exists>(a, c)\<in>set (Counter xd). minc self < int c
              \<and> (\<exists>h. bin_hist self xd yd y_te a = Inr h \<and> \<not> feq (np_sum h) (Fin (real c))))
            \<and> (\<forall>(a, c)\<in>set (Counter xd). minc self < int c \<longrightarrow>
                  (\<exists>h. bin_hist self xd yd y_te a = Inr h))
           \<longrightarrow> cds_score self x_te y_te = Inl AssertionError)"
proof -
  let ?yr = "py_sorted (map fst (Counter yd))"
  let ?py = "marginal (Counter yd) ?yr"
  let ?cd = "cond_dists self xd y_te ?py ?yr (Counter xd)"
  note loop = cds_score_loop[OF assms]
  have bh: "bin_hist self xd yd y_te a = cond_hist self y_te ?py ?yr (select_rows xd a y_te)" for a
    by (simp add: bin_hist_def Let_def)
  have zero: "\<forall>(a, c)\<in>set (Counter xd). minc self < int c \<longrightarrow>
              (\<exists>h. bin_hist self xd yd y_te a = Inr h \<and> feq (np_sum h) (Fin (real c)))"
    if h: "1 \<le> ffactor self \<and> 1 \<le> maxdev self \<and> 1 \<le> minc self
            \<and> Unhashable \<notin> set x_te \<and> float_safe y_te \<and> length x_te = length y_te"
  proof (clarify)
    fix a c assume m: "(a, c) \<in> set (Counter xd)" "minc self < int c"
    from h have cfg: "1 \<le> ffactor self" "1 \<le> maxdev self" "1 \<le> minc self"
      and ux: "Unhashable \<notin> set x_te" and len: "length x_te = length y_te" by simp_all
    from h have "float_safe y_te" by simp
    then have fy: "\<forall>e\<in>set y_te. \<exists>r. e = Num (Fin r)" by (rule float_safe_finite)
    from bin_hist_total[OF cfg ux fy len assms m]
    show "\<exists>h. bin_hist self xd yd y_te a = Inr h \<and> feq (np_sum h) (Fin (real c))"
      by (auto simp: feq_def)
  qed
  have one: "\<forall>(a, c)\<in>set (Counter xd). minc self < int c \<longrightarrow>
              (\<exists>h. bin_hist self xd yd y_te a = Inr h \<and> feq (np_sum h) (Fin (real c)))"
    if "cds_score self x_te y_te = Inr s"
  proof -
    from that loop obtain pyx where "?cd = Inr pyx"
      by (cases ?cd) auto
    from cond_dists_asserted[OF this] show ?thesis unfolding bh by blast
  qed
  have viol: "\<exists>e. ?cd = Inl e"
    if "\<exists>(a, c)\<in>set (Counter xd). minc self < int c
              \<and> (\<exists>h. bin_hist self xd yd y_te a = Inr h \<and> \<not> feq (np_sum h) (Fin (real c)))"
  proof (cases ?cd)
    case (Inl e)
    then show ?thesis by blast
  next
    case (Inr pyx)
    from that obtain a c h where v: "(a, c) \<in> set (Counter xd)" "minc self < int c"
      "bin_hist self xd yd y_te a = Inr h" "\<not> feq (np_sum h) (Fin (real c))" by blast
    from cond_dists_asserted[OF Inr v(1,2)] v(3,4) show ?thesis unfolding bh by auto
  qed
  have two: "\<exists>e. cds_score self x_te y_te = Inl e"
    if "\<exists>(a, c)\<in>set (Counter xd). minc self < int c
              \<and> (\<exists>h. bin_hist self xd yd y_te a = Inr h \<and> \<not> feq (np_sum h) (Fin (real c)))"
    using viol[OF that] loop by auto
  have three: "cds_score self x_te y_te = Inl AssertionError"
    if v: "\<exists>(a, c)\<in>set (Counter xd). minc self < int c
              \<and> (\<exists>h. bin_hist self xd yd y_te a = Inr h \<and> \<not> feq (np_sum h) (Fin (real c)))"
      and ok: "\<forall>(a, c)\<in>set (Counter xd). minc self < int c \<longrightarrow>
                  (\<exists>h. bin_hist self xd yd y_te a = Inr h)"
  proof -
    from viol[OF v] obtain e where e: "?cd = Inl e" by blast
    from cond_dists_error[OF e] ok have "e = AssertionError" unfolding bh by fastforce
    with e loop show ?thesis by simp
  qed
  from zero one two three show ?thesis by blast
qed

theorem count_preserved_or_raises_witness:
  "1 \<le> ffactor ex_cfg \<and> 1 \<le> maxdev ex_cfg \<and> 1 \<le> minc ex_cfg
   \<and> Unhashable \<notin> set ex_v \<and> float_safe ex_w \<and> length ex_v = length ex_w
   \<and> discretized_sequences ex_v ex_w (ffactor ex_cfg) (maxdev ex_cfg)
        = Inr (ex_v, map Num [Fin (- 1), Fin (- 1), Fin (- 1), Fin 1, Fin 1])
   \<and> Counter ex_v = [(Num (Fin 0), 3), (Num (Fin 1), 2)]
   \<and> (\<exists>h. bin_hist ex_cfg ex_v (map Num [Fin (- 1), Fin (- 1), Fin (- 1), Fin 1, Fin 1]) ex_w
              (Num (Fin 0)) = Inr h \<and> feq (np_sum h) (Fin (real 3)))
   \<and> (\<exists>h. bin_hist ex_cfg ex_v (map Num [Fin (- 1), Fin (- 1), Fin (- 1), Fin 1, Fin 1]) ex_w
              (Num (Fin 1)) = Inr h \<and> feq (np_sum h) (Fin (real 2)))
   \<and> discretized_sequences ex_x ex_y (ffactor ex_cfg) (maxdev ex_cfg) = Inr (ex_x, ex_y)
   \<and> cds_score ex_cfg ex_x ex_y = Inr (Fin (sqrt (1 / 32)))
   \<and> Counter ex_x = [(Num (Fin 0), 2), (Num (Fin 1), 2)]
   \<and> (\<exists>h. bin_hist ex_cfg ex_x ex_y ex_y (Num (Fin 0)) = Inr h \<and> feq (np_sum h) (Fin (real 2)))
   \<and> (\<exists>h. bin_hist ex_cfg ex_x ex_y ex_y (Num (Fin 1)) = Inr h \<and> feq (np_sum h) (Fin (real 2)))
   \<and> discretized_sequences ex_c ex_nan (ffactor ex_cfg) (maxdev ex_cfg) = Inr (ex_c, ex_nan)
   \<and> Counter ex_c = [(Num (Fin 5), 2)] \<and> minc ex_cfg < int 2
   \<and> bin_hist ex_cfg ex_c ex_nan ex_nan (Num (Fin 5)) = Inr [Fin 0, Fin 0, Fin 0, Fin 0]
   \<and> \<not> feq (np_sum [Fin 0, Fin 0, Fin 0, Fin 0]) (Fin (real 2))
   \<and> cds_score ex_cfg ex_c ex_nan = Inl AssertionError"
proof -
  have cfg: "1 \<le> ffactor ex_cfg \<and> 1 \<le> maxdev ex_cfg \<and> 1 \<le> minc ex_cfg"
    by (simp add: ex_cfg_def)
  have hv: "Unhashable \<notin> set ex_v \<and> float_safe ex_w \<and> length ex_v = length ex_w"
    using float_safe_ex_w by (simp add: ex_v_def ex_w_def)
  have m: "minc ex_cfg < int 2" by (simp add: ex_cfg_def)
  have nf: "\<not> feq (np_sum [Fin 0, Fin 0, Fin 0, Fin 0]) (Fin (real 2))"
    by (simp add: np_sum_def feq_def)
  note t0 = count_preserved_or_raises[OF ex_vw_discretized, of undefined]
  from t0 cfg hv
  have c: "\<forall>(a, c)\<in>set (Counter ex_v). minc ex_cfg < int c \<longrightarrow>
         (\<exists>h. bin_hist ex_cfg ex_v (map Num [Fin (- 1), Fin (- 1), Fin (- 1), Fin 1, Fin 1]) ex_w a
                = Inr h \<and> feq (np_sum h) (Fin (real c)))"
    by blast
  have c': "(\<exists>h. bin_hist ex_cfg ex_v (map Num [Fin (- 1), Fin (- 1), Fin (- 1), Fin 1, Fin 1]) ex_w
              (Num (Fin 0)) = Inr h \<and> feq (np_sum h) (Fin (real 3)))
      \<and> (\<exists>h. bin_hist ex_cfg ex_v (map Num [Fin (- 1), Fin (- 1), Fin (- 1), Fin 1, Fin 1]) ex_w
              (Num (Fin 1)) = Inr h \<and> feq (np_sum h) (Fin (real 2)))"
    using c unfolding ex_v_counter by (simp add: ex_cfg_def)
  note t1 = count_preserved_or_raises[OF ex_xy_discretized, of "Fin (sqrt (1 / 32))"]
  from t1 ex_cds_xy
  have a: "\<forall>(a, c)\<in>set (Counter ex_x). minc ex_cfg < int c \<longrightarrow>
         (\<exists>h. bin_hist ex_cfg ex_x ex_y ex_y a = Inr h \<and> feq (np_sum h) (Fin (real c)))"
    by blast
  have a': "(\<exists>h. bin_hist ex_cfg ex_x ex_y ex_y (Num (Fin 0)) = Inr h \<and> feq (np_sum h) (Fin (real 2)))
      \<and> (\<exists>h. bin_hist ex_cfg ex_x ex_y ex_y (Num (Fin 1)) = Inr h \<and> feq (np_sum h) (Fin (real 2)))"
    using a unfolding ex_x_counter by (simp add: ex_cfg_def)
  note t2 = count_preserved_or_raises[OF ex_c_nan_discretized, of undefined]
  have v: "\<exists>(a, c)\<in>set (Counter ex_c). minc ex_cfg < int c
      \<and> (\<exists>h. bin_hist ex_cfg ex_c ex_nan ex_nan a = Inr h \<and> \<not> feq (np_sum h) (Fin (real c)))"
    unfolding ex_c_counter using m nf ex_c_nan_hist by simp
  have ok: "\<forall>(a, c)\<in>set (Counter ex_c). minc ex_cfg < int c \<longrightarrow>
      (\<exists>h. bin_hist ex_cfg ex_c ex_nan ex_nan a = Inr h)"
    unfolding ex_c_counter using ex_c_nan_hist by simp
  from t2 v ok have b: "cds_score ex_cfg ex_c ex_nan = Inl AssertionError" by blast
  from cfg hv ex_vw_discretized ex_v_counter c' ex_xy_discretized ex_cds_xy ex_x_counter a'
    ex_c_nan_discretized ex_c_counter m ex_c_nan_hist nf b
  show ?thesis by blast
qed

text \<open>
  C9, as the claim states it, fails: it puts no condition on \<open>minc\<close>. Take
  \<open>x = y = ex_tails\<close> (finite, five unique values, standard deviation 5) with
  \<open>ffactor = maxdev = 1\<close> and \<open>minc = 0\<close>. Each NaN of the discretized cause sequence
  is a bin of count 1, which qualifies and selects no row: its histogram adds up to 0 and
  the assertion fails.
\<close>

theorem continuous_assertion_counterexample:
  "ex_tails = [Num (Fin (- 8)), Num (Fin (- 6)), Num (Fin 0), Num (Fin 0),
               Num (Fin 0), Num (Fin 0), Num (Fin 6), Num (Fin 8)]
   \<and> count_unique ex_tails = Inr 5 \<and> int 5 > 2 * ffactor ex_cfg0 * maxdev ex_cfg0 + 1
   \<and> np_std (floats ex_tails) = Fin 5
   \<and> minc ex_cfg0 = 0
   \<and> cds_score ex_cfg0 ex_tails ex_tails = Inl AssertionError"
  using ex_tails_count ex_tails_std ex_tails_score0
  by (simp add: ex_tails_def ex_cfg0_def)

text \<open>
  C9, amended. For a finite cause sequence and a float-safe effect sequence of the same
  length, the effect sequence having more unique values than
  \<open>2 * ffactor * maxdev + 1\<close> and a non-zero standard deviation, and a configuration
  with \<open>ffactor\<close>, \<open>maxdev\<close> and \<open>minc\<close> at least 1: every discretized value of every
  qualifying conditional subset lies in the bin range, every histogram adds up to its
  bin's count, and \<open>cds_score\<close> returns a value, so the assertion does not fail.
\<close>

theorem continuous_assertion_holds:
  assumes cfg: "1 \<le> ffactor self" "1 \<le> maxdev self" "1 \<le> minc self"
    and fx: "\<forall>e\<in>set x_te. \<exists>r. e = Num (Fin r)"
    and fs: "float_safe y_te"
    and len: "length x_te = length y_te"
    and cu: "count_unique y_te = Inr n" "int n > 2 * ffactor self * maxdev self + 1"
    and sd: "np_std (floats y_te) \<noteq> Fin 0"
  shows "\<exists>xd yd. discretized_sequences x_te y_te (ffactor self) (maxdev self) = Inr (xd, yd)
     \<and> (\<forall>(a, c)\<in>set (Counter xd). minc self < int c \<longrightarrow>
          (\<exists>h. bin_hist self xd yd y_te a = Inr h \<and> feq (np_sum h) (Fin (real c)))
          \<and> (\<forall>v\<in>set (round_clip (rescale y_te (select_rows xd a y_te))
                         (ffactor self) (maxdev self)).
                in_bin_range (ffactor self) (maxdev self) v))
     \<and> (\<exists>s. cds_score self x_te y_te = Inr s)"
proof -
  from cfg(1,2) have nn: "0 \<le> ffactor self * maxdev self" by simp
  from fs have fy: "\<forall>e\<in>set y_te. \<exists>r. e = Num (Fin r)" by (rule float_safe_finite)
  from fx fy have nu: "Unhashable \<notin> set x_te" "Unhashable \<notin> set y_te" by auto
  from discretized_sequences_ok[OF nu] obtain xd yd where
    ds: "discretized_sequences x_te y_te (ffactor self) (maxdev self) = Inr (xd, yd)"
    and lxd: "length xd = length x_te" by blast
  let ?yr = "py_sorted (map fst (Counter yd))"
  let ?py = "marginal (Counter yd) ?yr"
  have bh: "bin_hist self xd yd y_te a = continuous_hist self y_te (select_rows xd a y_te)" for a
    by (simp add: bin_hist_def Let_def cond_hist_continuous[OF cu nn])
  have bins: "(\<exists>h. bin_hist self xd yd y_te a = Inr h \<and> feq (np_sum h) (Fin (real c)))
          \<and> (\<forall>v\<in>set (round_clip (rescale y_te (select_rows xd a y_te))
                         (ffactor self) (maxdev self)).
                in_bin_range (ffactor self) (maxdev self) v)"
    if mem: "(a, c) \<in> set (Counter xd)" and q: "minc self < int c" for a c
  proof -
    from q cfg(3) have c2: "2 \<le> c" by simp
    with Counter_count[OF mem] have c: "c = length (filter (\<lambda>e. key_eq e a) xd)"
      by (auto split: if_splits)
    from lxd len have "length xd = length y_te" by simp
    from length_select_rows[OF this] c have ly: "length (select_rows xd a y_te) = c" by simp
    with c2 have ne: "select_rows xd a y_te \<noteq> []" by auto
    from continuous_hist_sum[OF nn fy set_select_rows ne sd cu] ly show ?thesis
      unfolding bh by (auto simp: feq_def)
  qed
  have "\<forall>(a, c)\<in>set (Counter xd). minc self < int c \<longrightarrow>
     (\<exists>h. cond_hist self y_te ?py ?yr (select_rows xd a y_te) = Inr h
          \<and> feq (np_sum h) (Fin (real c)))"
    using bins by (auto simp: bin_hist_def Let_def)
  from cond_dists_ok[OF this] obtain pyx where
    "cond_dists self xd y_te ?py ?yr (Counter xd) = Inr pyx" by blast
  then have "\<exists>s. cds_score self x_te y_te = Inr s"
    unfolding cds_score_loop[OF ds] by simp
  with ds bins show ?thesis by blast
qed

theorem continuous_assertion_holds_witness:
  "1 \<le> ffactor ex_cfg \<and> 1 \<le> maxdev ex_cfg \<and> 1 \<le> minc ex_cfg
   \<and> ex_v = map (\<lambda>r. Num (Fin r)) [0, 0, 0, 1, 1]
   \<and> ex_w = map (\<lambda>r. Num (Fin r)) [- 6, - 6, - 2, 0, 2]
   \<and> float_safe ex_w
   \<and> length ex_v = length ex_w
   \<and> count_unique ex_w = Inr 4 \<and> int 4 > 2 * ffactor ex_cfg * maxdev ex_cfg + 1
   \<and> np_std (floats ex_w) = Fin (16 / 5)
   \<and> (\<exists>s. cds_score ex_cfg ex_v ex_w = Inr s)"
proof -
  have cfg: "1 \<le> ffactor ex_cfg" "1 \<le> maxdev ex_cfg" "1 \<le> minc ex_cfg"
    "int 4 > 2 * ffactor ex_cfg * maxdev ex_cfg + 1"
    by (simp_all add: ex_cfg_def)
  have fin: "\<forall>e\<in>set ex_v. \<exists>r. e = Num (Fin r)" "length ex_v = length ex_w"
    by (simp_all add: ex_v_def ex_w_def)
  have sd: "np_std (floats ex_w) \<noteq> Fin 0" by (simp add: ex_w_std)
  from continuous_assertion_holds[OF cfg(1,2,3) fin(1) float_safe_ex_w fin(2) ex_w_count cfg(4) sd]
  have "\<exists>s. cds_score ex_cfg ex_v ex_w = Inr s" by blast
  with cfg fin(2) ex_w_count ex_w_std float_safe_ex_w show ?thesis
    by (simp add: ex_v_def ex_w_def)
qed




text \<open>
  C10. In the store model, \<open>cds_score\<close> and \<open>predict_proba\<close> leave every array
  that existed before the call with its contents, the two input arrays among them, and
  they compute the value of the functional model on those contents.
\<close>

theorem inputs_not_mutated:
  assumes "pa < fresh s" "pb < fresh s"
  shows "(\<forall>q<fresh s. arrays (snd (cds_score_st self s pa pb)) q = arrays s q)
       \<and> arrays (snd (cds_score_st self s pa pb)) pa = arrays s pa
       \<and> arrays (snd (cds_score_st self s pa pb)) pb = arrays s pb
       \<and> fst (cds_score_st self s pa pb) = cds_score self (arrays s pa) (arrays s pb)
       \<and> (\<forall>q<fresh s. arrays (snd (predict_proba_st self s pa pb)) q = arrays s q)
       \<and> arrays (snd (predict_proba_st self s pa pb)) pa = arrays s pa
       \<and> arrays (snd (predict_proba_st self s pa pb)) pb = arrays s pb
       \<and> fst (predict_proba_st self s pa pb) = predict_proba self (arrays s pa) (arrays s pb)"
proof -
  obtain r1 s1 where c: "cds_score_st self s pa pb = (r1, s1)"
    by (cases "cds_score_st self s pa pb")
  obtain r2 s2 where p: "predict_proba_st self s pa pb = (r2, s2)"
    by (cases "predict_proba_st self s pa pb")
  from cds_score_st_spec[OF c assms] predict_proba_st_spec[OF p assms] assms
  show ?thesis
    unfolding c p by (simp add: preserved_def)
qed

theorem inputs_not_mutated_witness:
  "0 < fresh ex_store \<and> 1 < fresh ex_store
   \<and> arrays ex_store 0 = ex_v \<and> arrays ex_store 1 = ex_w
   \<and> arrays (snd (predict_proba_st ex_cfg ex_store 0 1)) 0 = ex_v
   \<and> arrays (snd (predict_proba_st ex_cfg ex_store 0 1)) 1 = ex_w
   \<and> fst (predict_proba_st ex_cfg ex_store 0 1) = predict_proba ex_cfg ex_v ex_w"
proof -
  have h: "0 < fresh ex_store" "1 < fresh ex_store" "arrays ex_store 0 = ex_v"
    "arrays ex_store 1 = ex_w"
    by (simp_all add: ex_store_def)
  from inputs_not_mutated[OF h(1,2), of ex_cfg] h show ?thesis by simp
qed

end
